theory Spec2Isabelle
  imports Complex_Main
begin

section \<open>Strings and characters\<close>

text \<open>
  A JavaScript string is modelled as a \<^typ>\<open>string\<close>: a list of code units below 256
  (the Latin-1 part of UTF-16). The character classes of the source are given for that
  range: white space (\<open>\s\<close> and \<open>trim\<close>) is TAB, LF, VT, FF, CR, SPACE and NBSP; a
  word character (\<open>\w\<close>) is an ASCII letter, a digit or the underscore; the dot matches
  everything but LF and CR.
\<close>

definition is_space :: "char \<Rightarrow> bool" where
  "is_space c = (c = CHR 0x09 \<or> c = CHR 0x0A \<or> c = CHR 0x0B \<or> c = CHR 0x0C \<or>
                 c = CHR 0x0D \<or> c = CHR 0x20 \<or> c = CHR 0xA0)"

definition is_upper :: "char \<Rightarrow> bool" where
  "is_upper c = (let n = (of_char c :: nat) in 65 \<le> n \<and> n \<le> 90)"

definition is_lower :: "char \<Rightarrow> bool" where
  "is_lower c = (let n = (of_char c :: nat) in 97 \<le> n \<and> n \<le> 122)"

definition is_digit :: "char \<Rightarrow> bool" where
  "is_digit c = (let n = (of_char c :: nat) in 48 \<le> n \<and> n \<le> 57)"

definition is_word :: "char \<Rightarrow> bool" where
  "is_word c = (is_upper c \<or> is_lower c \<or> is_digit c \<or> c = CHR ''_'')"

definition is_line_end :: "char \<Rightarrow> bool" where
  "is_line_end c = (c = CHR 0x0A \<or> c = CHR 0x0D)"

text \<open>The case folding of the \<open>i\<close> flag, on ASCII letters.\<close>

definition fold_case :: "char \<Rightarrow> char" where
  "fold_case c = (if is_upper c then char_of ((of_char c :: nat) + 32) else c)"



text \<open>\<open>String.prototype.trim\<close>.\<close>

definition trim :: "string \<Rightarrow> string" where
  "trim s = rev (dropWhile is_space (rev (dropWhile is_space s)))"

text \<open>\<open>String.prototype.includes\<close>: the needle occurs as a contiguous part.\<close>

fun str_includes :: "string \<Rightarrow> string \<Rightarrow> bool" where
  "str_includes [] needle = (needle = [])"
| "str_includes (x # xs) needle = (take (length needle) (x # xs) = needle \<or> str_includes xs needle)"

section \<open>Regular expressions as the source uses them\<close>

text \<open>
  The source rewrites text with JavaScript regular expressions. They are modelled by a
  backtracking matcher that returns every way a pattern can match at a position, in the
  order in which a backtracking engine tries them; the head of that list is the match
  JavaScript reports. A position is the text before it (reversed), the text from it on,
  and the text of capture group 1.
\<close>

type_synonym mstate = "string \<times> string \<times> string option"

datatype regex =
    Atom "char \<Rightarrow> bool"
  | Eps
  | Seq regex regex
  | Alt regex regex
  | Star regex
  | Lazy regex
  | NotAhead regex
  | Group regex
  | WordB
  | LineStart
  | LineEnd

fun iter_greedy :: "(mstate \<Rightarrow> mstate list) \<Rightarrow> nat \<Rightarrow> mstate \<Rightarrow> mstate list" where
  "iter_greedy f 0 st = [st]"
| "iter_greedy f (Suc n) st =
     concat (map (\<lambda>st'. if length (fst (snd st')) < length (fst (snd st))
                           then iter_greedy f n st' else []) (f st)) @ [st]"

fun iter_lazy :: "(mstate \<Rightarrow> mstate list) \<Rightarrow> nat \<Rightarrow> mstate \<Rightarrow> mstate list" where
  "iter_lazy f 0 st = [st]"
| "iter_lazy f (Suc n) st =
     st # concat (map (\<lambda>st'. if length (fst (snd st')) < length (fst (snd st))
                                then iter_lazy f n st' else []) (f st))"

text \<open>
  \<open>\b\<close> compares the character before the position (the head of the reversed text
  before it) with the character at the position (the head of the text from it on).
\<close>

definition word_at_head :: "string \<Rightarrow> bool" where
  "word_at_head s = (case s of [] \<Rightarrow> False | x # _ \<Rightarrow> is_word x)"

text \<open>
  An iteration of \<open>*\<close> that consumes nothing is rejected, as in JavaScript, so the number
  of iterations is at most the length of the remaining text: that length is the fuel.
\<close>

fun matches :: "regex \<Rightarrow> mstate \<Rightarrow> mstate list" where
  "matches (Atom P) (b, a, c) =
     (case a of [] \<Rightarrow> [] | x # xs \<Rightarrow> if P x then [(x # b, xs, c)] else [])"
| "matches Eps st = [st]"
| "matches (Seq r1 r2) st = concat (map (matches r2) (matches r1 st))"
| "matches (Alt r1 r2) st = matches r1 st @ matches r2 st"
| "matches (Star r) st = iter_greedy (matches r) (length (fst (snd st))) st"
| "matches (Lazy r) st = iter_lazy (matches r) (length (fst (snd st))) st"
| "matches (NotAhead r) st = (if matches r st = [] then [st] else [])"
| "matches (Group r) (b, a, c) =
     map (\<lambda>(b', a', c'). (b', a', Some (rev (take (length b' - length b) b'))))
         (matches r (b, a, c))"
| "matches WordB (b, a, c) = (if word_at_head b \<noteq> word_at_head a then [(b, a, c)] else [])"
| "matches LineStart (b, a, c) =
     (case b of [] \<Rightarrow> [(b, a, c)] | x # _ \<Rightarrow> if is_line_end x then [(b, a, c)] else [])"
| "matches LineEnd (b, a, c) =
     (case a of [] \<Rightarrow> [(b, a, c)] | x # _ \<Rightarrow> if is_line_end x then [(b, a, c)] else [])"

text \<open>Pattern syntax: a sequence, a literal, a literal under the \<open>i\<close> flag, \<open>+\<close>, \<open>?\<close>, \<open>{n,}\<close>.\<close>

definition seq :: "regex list \<Rightarrow> regex" where
  "seq rs = foldr Seq rs Eps"

definition chr :: "char \<Rightarrow> regex" where
  "chr c = Atom (\<lambda>x. x = c)"

definition chr_i :: "char \<Rightarrow> regex" where
  "chr_i c = Atom (\<lambda>x. fold_case x = fold_case c)"

definition not_chr :: "char \<Rightarrow> regex" where
  "not_chr c = Atom (\<lambda>x. x \<noteq> c)"

definition str :: "string \<Rightarrow> regex" where
  "str s = seq (map chr s)"

definition str_i :: "string \<Rightarrow> regex" where
  "str_i s = seq (map chr_i s)"

definition plus :: "regex \<Rightarrow> regex" where
  "plus r = Seq r (Star r)"

definition opt :: "regex \<Rightarrow> regex" where
  "opt r = Alt r Eps"

definition at_least :: "nat \<Rightarrow> regex \<Rightarrow> regex" where
  "at_least n r = seq (replicate n r @ [Star r])"

text \<open>
  A replacement text is literal text with \<open>$1\<close> in it; a capture group that did not take
  part in the match gives the empty string.
\<close>

datatype piece = Txt string | Grp1

fun expand :: "piece list \<Rightarrow> string option \<Rightarrow> string" where
  "expand [] c = []"
| "expand (Txt t # ps) c = t @ expand ps c"
| "expand (Grp1 # ps) c = (case c of None \<Rightarrow> [] | Some g \<Rightarrow> g) @ expand ps c"

text \<open>
  \<open>text.replace(/r/g, rep)\<close>: the matches are found from left to right, each search
  starting where the previous match ended (one character later after an empty match);
  the text between the matches is copied. \<open>skip\<close> counts the characters of the current
  match that are still to be passed over.
\<close>

fun replace_from :: "regex \<Rightarrow> piece list \<Rightarrow> string \<Rightarrow> string \<Rightarrow> nat \<Rightarrow> string" where
  "replace_from r rep b [] skip =
     (if 0 < skip then []
      else case matches r (b, [], None) of [] \<Rightarrow> [] | (_, _, c) # _ \<Rightarrow> expand rep c)"
| "replace_from r rep b (x # xs) skip =
     (if 0 < skip then replace_from r rep (x # b) xs (skip - 1)
      else case matches r (b, x # xs, None) of
             [] \<Rightarrow> x # replace_from r rep (x # b) xs 0
           | (_, a', c) # _ \<Rightarrow>
               (let n = length (x # xs) - length a' in
                if n = 0 then expand rep c @ x # replace_from r rep (x # b) xs 0
                else expand rep c @ replace_from r rep (x # b) xs (n - 1)))"

definition replace_all :: "regex \<Rightarrow> piece list \<Rightarrow> string \<Rightarrow> string" where
  "replace_all r rep s = replace_from r rep [] s 0"

text \<open>
  \<open>text.split(/r/)\<close> for a pattern without capture groups: a match that ends where the
  current part starts is passed over, the empty text gives one empty part unless the
  pattern matches it.
\<close>

fun split_from :: "regex \<Rightarrow> string \<Rightarrow> string \<Rightarrow> nat \<Rightarrow> string \<Rightarrow> string list" where
  "split_from r b [] skip cur = [rev cur]"
| "split_from r b (x # xs) skip cur =
     (if 0 < skip then split_from r (x # b) xs (skip - 1) cur
      else case matches r (b, x # xs, None) of
             [] \<Rightarrow> split_from r (x # b) xs 0 (x # cur)
           | (_, a', _) # _ \<Rightarrow>
               (let n = length (x # xs) - length a' in
                if n = 0 then
                  (if cur = [] then split_from r (x # b) xs 0 [x]
                   else rev cur # split_from r (x # b) xs 0 [x])
                else rev cur # split_from r (x # b) xs (n - 1) []))"

definition split_re :: "regex \<Rightarrow> string \<Rightarrow> string list" where
  "split_re r s =
     (if s = [] then (if matches r ([], [], None) = [] then [[]] else [])
      else split_from r [] s 0 [])"

section \<open>The format normalizer of \<open>processBookContent\<close>\<close>

definition re_script :: regex where
  "re_script = seq [str_i ''<script'', WordB, Star (not_chr CHR ''<''),
     Star (seq [NotAhead (str_i ''</script>''), chr CHR ''<'', Star (not_chr CHR ''<'')]),
     str_i ''</script>'']"

definition re_style :: regex where
  "re_style = seq [str_i ''<style'', WordB, Star (not_chr CHR ''<''),
     Star (seq [NotAhead (str_i ''</style>''), chr CHR ''<'', Star (not_chr CHR ''<'')]),
     str_i ''</style>'']"

definition digit_1_6 :: regex where
  "digit_1_6 = Atom (\<lambda>x. x \<in> set ''123456'')"

definition dot :: regex where
  "dot = Atom (\<lambda>x. \<not> is_line_end x)"

definition re_heading :: regex where
  "re_heading = seq [chr CHR ''<'', chr_i CHR ''h'', digit_1_6, Star (not_chr CHR ''>''), chr CHR ''>'',
     Group (Lazy dot),
     str_i ''</h'', digit_1_6, chr CHR ''>'']"

definition re_p_close :: regex where
  "re_p_close = str_i ''</p>''"

definition re_p_open :: regex where
  "re_p_open = seq [str_i ''<p'', Star (not_chr CHR ''>''), chr CHR ''>'']"

definition re_br :: regex where
  "re_br = seq [str_i ''<br'', Star (Atom is_space), opt (chr CHR ''/''), chr CHR ''>'']"

definition re_tag :: regex where
  "re_tag = seq [chr CHR ''<'', plus (not_chr CHR ''>''), chr CHR ''>'']"

definition blank :: regex where
  "blank = Atom (\<lambda>x. x = CHR '' '' \<or> x = CHR 0x09)"

definition re_blanks :: regex where
  "re_blanks = plus blank"

definition re_nl_blanks :: regex where
  "re_nl_blanks = seq [chr CHR 0x0A, plus blank]"

definition re_blanks_nl :: regex where
  "re_blanks_nl = seq [plus blank, chr CHR 0x0A]"

definition re_nl3 :: regex where
  "re_nl3 = at_least 3 (chr CHR 0x0A)"

definition banner :: "piece list" where
  "banner = [Txt ''\<newline>\<newline>=== '', Grp1, Txt '' ===\<newline>\<newline>'']"

text \<open>The markup branch (\<open>contentUrl.includes('html') || contentUrl === 'demo'\<close>).\<close>

definition normalize_markup :: "string \<Rightarrow> string" where
  "normalize_markup text =
     trim (replace_all re_nl3 [Txt ''\<newline>\<newline>'']
     (replace_all re_blanks_nl [Txt ''\<newline>'']
     (replace_all re_nl_blanks [Txt ''\<newline>'']
     (replace_all re_blanks [Txt '' '']
     (replace_all (str ''&apos;'') [Txt [CHR 0x27]]
     (replace_all (str ''&quot;'') [Txt [CHR 0x22]]
     (replace_all (str ''&gt;'') [Txt ''>'']
     (replace_all (str ''&lt;'') [Txt ''<'']
     (replace_all (str ''&amp;'') [Txt ''&'']
     (replace_all (str ''&nbsp;'') [Txt '' '']
     (replace_all re_tag []
     (replace_all re_br [Txt ''\<newline>'']
     (replace_all re_p_open []
     (replace_all re_p_close [Txt ''\<newline>\<newline>'']
     (replace_all re_heading banner
     (replace_all re_style []
     (replace_all re_script [] text)))))))))))))))))"

text \<open>The plain-text branch.\<close>

definition roman_or_digit :: regex where
  "roman_or_digit = Atom (\<lambda>x. fold_case x \<in> set ''ivxlc'' \<or> is_digit x)"

definition re_chapter :: regex where
  "re_chapter = Group (seq [str_i ''CHAPTER '', plus roman_or_digit, Star dot])"

definition re_caps_line :: regex where
  "re_caps_line = seq [LineStart, Star (Atom is_space),
     Group (seq [Atom is_upper, at_least 10 (Atom (\<lambda>x. is_upper x \<or> is_space x))]),
     Star (Atom is_space), LineEnd]"

definition normalize_plain :: "string \<Rightarrow> string" where
  "normalize_plain text =
     trim (replace_all re_nl3 [Txt ''\<newline>\<newline>'']
     (replace_all re_blanks [Txt '' '']
     (replace_all re_caps_line banner
     (replace_all re_chapter banner
     (replace_all (chr CHR 0x0D) [Txt ''\<newline>'']
     (replace_all (str [CHR 0x0D, CHR 0x0A]) [Txt ''\<newline>''] text))))))"

section \<open>Pagination\<close>

text \<open>
  The source paginates in two places with two copies of the same loop: in
  \<open>processBookContent\<close>, to set \<open>totalPages\<close>, and in \<open>getCurrentPageContent\<close>, to pick the
  text of the current page. Each copy is modelled on its own.
\<close>

definition re_paragraph_break :: regex where
  "re_paragraph_break = seq [chr CHR 0x0A, plus (chr CHR 0x0A)]"

definition re_spaces :: regex where
  "re_spaces = plus (Atom is_space)"

record page_buffer =
  pages :: "string list"
  currentPageContent :: string
  wordCount :: nat

definition load_step :: "page_buffer \<Rightarrow> string \<Rightarrow> page_buffer" where
  "load_step st paragraph =
     (let paragraphWords = length (split_re re_spaces (trim paragraph)) in
      if wordCount st + paragraphWords > 400 \<and> trim (currentPageContent st) \<noteq> [] then
        \<lparr>pages = pages st @ [trim (currentPageContent st)],
         currentPageContent = paragraph @ ''\<newline>\<newline>'',
         wordCount = paragraphWords\<rparr>
      else
        \<lparr>pages = pages st,
         currentPageContent = currentPageContent st @ paragraph @ ''\<newline>\<newline>'',
         wordCount = wordCount st + paragraphWords\<rparr>)"

definition load_pages :: "string \<Rightarrow> string list" where
  "load_pages text =
     (let st = foldl load_step \<lparr>pages = [], currentPageContent = [], wordCount = 0\<rparr>
                 (split_re re_paragraph_break text) in
      if trim (currentPageContent st) \<noteq> [] then pages st @ [trim (currentPageContent st)]
      else pages st)"

definition render_step :: "page_buffer \<Rightarrow> string \<Rightarrow> page_buffer" where
  "render_step st paragraph =
     (let paragraphWords = length (split_re re_spaces (trim paragraph)) in
      if wordCount st + paragraphWords > 400 \<and> trim (currentPageContent st) \<noteq> [] then
        \<lparr>pages = pages st @ [trim (currentPageContent st)],
         currentPageContent = paragraph @ ''\<newline>\<newline>'',
         wordCount = paragraphWords\<rparr>
      else
        \<lparr>pages = pages st,
         currentPageContent = currentPageContent st @ paragraph @ ''\<newline>\<newline>'',
         wordCount = wordCount st + paragraphWords\<rparr>)"

definition render_pages :: "string \<Rightarrow> string list" where
  "render_pages content =
     (let st = foldl render_step \<lparr>pages = [], currentPageContent = [], wordCount = 0\<rparr>
                 (split_re re_paragraph_break content) in
      if trim (currentPageContent st) \<noteq> [] then pages st @ [trim (currentPageContent st)]
      else pages st)"

section \<open>The reader component\<close>

datatype theme = Light | Dark | Sepia

record reader_settings =
  fontSize :: int
  theme :: theme
  fontFamily :: string
  lineHeight :: real

record reader =
  showSettings :: bool
  content :: string
  loading :: bool
  error :: "string option"
  currentPage :: int
  totalPages :: int
  isBookmarked :: bool
  settings :: reader_settings

text \<open>
  A book. The \<open>formats\<close> object is an association list in insertion order, which is the
  order of \<open>Object.keys\<close> for keys that are not array indices; its keys are distinct.
\<close>

record book =
  book_id :: string
  title :: string
  authors :: "string list"
  coverUrl :: "string option"
  description :: "string option"
  publishYear :: "string option"
  language :: "string option"
  subjects :: "string list option"
  formats :: "(string \<times> string) list option"
  downloadCount :: "nat option"

definition join :: "string \<Rightarrow> string list \<Rightarrow> string" where
  "join sep xs = (case xs of [] \<Rightarrow> [] | y # ys \<Rightarrow> y @ concat (map (\<lambda>z. sep @ z) ys))"

definition generateDemoContent :: "book \<Rightarrow> string" where
  "generateDemoContent b =
     ''=== '' @ title b @ '' ===\<newline>\<newline>By '' @ join '', '' (authors b) @ ''\<newline>\<newline>'' @
     ''This is a demonstration of the book reader interface. \<newline>'' @
     ''\<newline>'' @
     ''Due to CORS (Cross-Origin Resource Sharing) restrictions, we cannot directly load the actual book content from external sources in this environment.\<newline>'' @
     ''\<newline>'' @
     ''In a real implementation, you would need one of the following solutions:\<newline>'' @
     ''\<newline>'' @
     ''1. **Server-side proxy**: Create a backend endpoint that fetches the book content and serves it to your frontend\<newline>'' @
     ''2. **CORS-enabled API**: Use book APIs that properly support CORS\<newline>'' @
     ''3. **Local files**: Store books locally and serve them from your domain\<newline>'' @
     ''4. **Browser extension**: Create a browser extension that can bypass CORS restrictions\<newline>'' @
     ''\<newline>'' @
     ''The book reader interface includes features like:\<newline>'' @
     ''- Multiple theme options (light, dark, sepia)\<newline>'' @
     ''- Adjustable font size and line height\<newline>'' @
     ''- Page navigation with progress tracking\<newline>'' @
     ''- Bookmark functionality\<newline>'' @
     ''- Reading progress persistence\<newline>'' @
     ''\<newline>'' @
     ''This reader would work perfectly with properly accessible book content sources.\<newline>'' @
     ''\<newline>'' @
     ''For Project Gutenberg books, you might want to:\<newline>'' @
     ''- Download books to your server first\<newline>'' @
     ''- Use their official API endpoints\<newline>'' @
     ''- Implement proper CORS handling on your backend\<newline>'' @
     ''\<newline>'' @
     ''The interface is fully functional - it just needs a reliable content source that doesn't have CORS restrictions.\<newline>'' @
     ''\<newline>'' @
     ''This demonstrates the pagination system working with the demo content across multiple pages.\<newline>'' @
     ''\<newline>'' @
     ''Each page contains approximately 400 words for comfortable reading.\<newline>'' @
     ''\<newline>'' @
     ''The navigation controls at the bottom allow you to move between pages easily.\<newline>'' @
     ''\<newline>'' @
     ''You can also use the slider to jump to any specific page in the book.\<newline>'' @
     ''\<newline>'' @
     ''The bookmark feature lets you save your current reading position.\<newline>'' @
     ''\<newline>'' @
     ''Theme customization helps reduce eye strain during long reading sessions.\<newline>'' @
     ''\<newline>'' @
     ''Font family options cater to different reading preferences - serif for traditional book feel, sans-serif for modern clarity, or monospace for code-like content.\<newline>'' @
     ''\<newline>'' @
     ''Line height adjustment improves readability based on personal preference and screen size.\<newline>'' @
     ''\<newline>'' @
     ''The responsive design ensures the reader works well on both desktop and mobile devices.''"

text \<open>
  \<open>processBookContent(text, contentUrl)\<close>. The text handed over is a string, or (from a
  JSON envelope without a string in \<open>contents\<close>) something else, on which the first
  \<open>replace\<close> throws inside the \<open>try\<close>.
\<close>

datatype fetched = Text string | NonText

definition processBookContent :: "fetched \<Rightarrow> string \<Rightarrow> reader \<Rightarrow> reader" where
  "processBookContent t contentUrl st =
     (case t of
        NonText \<Rightarrow> st\<lparr>error := Some ''Failed to process book content'', loading := False\<rparr>
      | Text text \<Rightarrow>
          (let text' = (if str_includes contentUrl ''html'' \<or> contentUrl = ''demo''
                        then normalize_markup text else normalize_plain text);
               pages = load_pages text'
           in st\<lparr>content := text', totalPages := int (length pages), loading := False\<rparr>))"

definition getCurrentPageContent :: "reader \<Rightarrow> string" where
  "getCurrentPageContent st =
     (if content st = [] then []
      else (let pages = render_pages (content st); i = currentPage st in
            if 0 \<le> i \<and> i < int (length pages) then pages ! nat i else []))"

subsection \<open>Fetching the content\<close>

text \<open>
  The network is a function from the URL fetched to the response (\<open>None\<close>: the request
  is rejected); the list returned holds the URLs fetched, in order. \<open>response.json()\<close> of the
  envelope branch is a function of the body: it throws, or gives the \<open>contents\<close> member.
\<close>

record response =
  ok :: bool
  body :: string

datatype envelope = JsonThrows | ContentsNotText | Contents string

datatype load_error = NoReadableFormat | ProxiesUnavailable

definition format_url :: "(string \<times> string) list \<Rightarrow> string \<Rightarrow> string" where
  "format_url fm k = (case map_of fm k of None \<Rightarrow> [] | Some u \<Rightarrow> u)"

definition select_content_url :: "book \<Rightarrow> string" where
  "select_content_url b =
     (let fm = (case formats b of None \<Rightarrow> [] | Some f \<Rightarrow> f) in
      if format_url fm ''text/html'' \<noteq> [] then format_url fm ''text/html''
      else if format_url fm ''text/plain; charset=utf-8'' \<noteq> []
        then format_url fm ''text/plain; charset=utf-8''
      else if format_url fm ''text/plain'' \<noteq> [] then format_url fm ''text/plain''
      else (case filter (\<lambda>format. str_includes format ''text'' \<or> str_includes format ''html'')
                        (map fst fm) of
              [] \<Rightarrow> []
            | k # _ \<Rightarrow> format_url fm k))"

definition corsProxies :: "string list" where
  "corsProxies =
     [''https://cors-anywhere.herokuapp.com/'',
      ''https://api.codetabs.com/v1/proxy?quest='',
      ''https://thingproxy.freeboard.io/fetch/'',
      ''https://cors.bridged.cc/'',
      ''https://yacdn.org/proxy/'']"

definition hex_digit :: "nat \<Rightarrow> char" where
  "hex_digit n = (if n < 10 then char_of (48 + n) else char_of (55 + n))"

definition percent :: "nat \<Rightarrow> string" where
  "percent n = [CHR ''%'', hex_digit (n div 16), hex_digit (n mod 16)]"

definition encode_char :: "char \<Rightarrow> string" where
  "encode_char c =
     (let n = (of_char c :: nat) in
      if is_upper c \<or> is_lower c \<or> is_digit c \<or> c \<in> set ''-_.!~*'' \<or> c = CHR 0x27
         \<or> c = CHR ''('' \<or> c = CHR '')'' then [c]
      else if n < 128 then percent n
      else percent (192 + n div 64) @ percent (128 + n mod 64))"

definition encodeURIComponent :: "string \<Rightarrow> string" where
  "encodeURIComponent s = concat (map encode_char s)"

fun try_proxies ::
  "(string \<Rightarrow> response option) \<Rightarrow> (string \<Rightarrow> envelope) \<Rightarrow> string \<Rightarrow> string list
     \<Rightarrow> fetched option \<times> string list" where
  "try_proxies fetch json contentUrl [] = (None, [])"
| "try_proxies fetch json contentUrl (proxy # rest) =
     (let proxyUrl = proxy @ encodeURIComponent contentUrl;
          next = (let (r, urls) = try_proxies fetch json contentUrl rest in (r, proxyUrl # urls))
      in case fetch proxyUrl of
           None \<Rightarrow> next
         | Some response \<Rightarrow>
             if ok response then
               (if str_includes proxy ''codetabs'' \<or> str_includes proxy ''bridged''
                  then (Some (Text (body response)), [proxyUrl])
                else if str_includes proxy ''allorigins''
                  then (case json (body response) of
                          JsonThrows \<Rightarrow> next
                        | ContentsNotText \<Rightarrow> (Some NonText, [proxyUrl])
                        | Contents text \<Rightarrow> (Some (Text text), [proxyUrl]))
                else (Some (Text (body response)), [proxyUrl]))
             else next)"

text \<open>
  The \<open>try\<close> block of \<open>loadBookContent\<close> up to the call of \<open>processBookContent\<close>: the text
  and the URL it is classified by, or the error thrown.
\<close>

definition fetch_content ::
  "(string \<Rightarrow> response option) \<Rightarrow> (string \<Rightarrow> envelope) \<Rightarrow> book
     \<Rightarrow> (load_error + fetched \<times> string) \<times> string list" where
  "fetch_content fetch json b =
     (let contentUrl = select_content_url b in
      if contentUrl = [] then (Inl NoReadableFormat, [])
      else
        (let direct = (case fetch contentUrl of
                         None \<Rightarrow> None
                       | Some response \<Rightarrow> if ok response then Some (body response) else None)
         in case direct of
              Some text \<Rightarrow> (Inr (Text text, contentUrl), [contentUrl])
            | None \<Rightarrow>
                (case try_proxies fetch json contentUrl corsProxies of
                   (Some t, urls) \<Rightarrow> (Inr (t, contentUrl), contentUrl # urls)
                 | (None, urls) \<Rightarrow> (Inl ProxiesUnavailable, contentUrl # urls))))"

text \<open>The \<open>catch\<close> of \<open>loadBookContent\<close> takes every error to the demo content.\<close>

definition loadBookContent ::
  "(string \<Rightarrow> response option) \<Rightarrow> (string \<Rightarrow> envelope) \<Rightarrow> book \<Rightarrow> reader
     \<Rightarrow> reader \<times> string list" where
  "loadBookContent fetch json b st =
     (let st1 = st\<lparr>loading := True, error := None\<rparr> in
      case fetch_content fetch json b of
        (Inr (t, contentUrl), urls) \<Rightarrow> (processBookContent t contentUrl st1, urls)
      | (Inl err, urls) \<Rightarrow> (processBookContent (Text (generateDemoContent b)) ''demo'' st1, urls))"

subsection \<open>Navigation and settings\<close>

definition handleNextPage :: "reader \<Rightarrow> reader" where
  "handleNextPage st =
     (if currentPage st < totalPages st - 1 then st\<lparr>currentPage := currentPage st + 1\<rparr> else st)"

definition handlePrevPage :: "reader \<Rightarrow> reader" where
  "handlePrevPage st =
     (if currentPage st > 0 then st\<lparr>currentPage := currentPage st - 1\<rparr> else st)"

text \<open>The page slider: \<open>onChange={(e) => setCurrentPage(parseInt(e.target.value))}\<close>.\<close>

definition slider_onChange :: "int \<Rightarrow> reader \<Rightarrow> reader" where
  "slider_onChange v st = st\<lparr>currentPage := v\<rparr>"

definition toggleBookmark :: "reader \<Rightarrow> reader" where
  "toggleBookmark st = st\<lparr>isBookmarked := \<not> isBookmarked st\<rparr>"

definition resetProgress :: "reader \<Rightarrow> reader" where
  "resetProgress st = st\<lparr>currentPage := 0, isBookmarked := False\<rparr>"

datatype settings_change =
    SetFontSize int
  | SetLineHeight real
  | SetTheme theme
  | SetFontFamily string

fun update_settings :: "settings_change \<Rightarrow> reader \<Rightarrow> reader" where
  "update_settings (SetFontSize v) st = st\<lparr>settings := (settings st)\<lparr>fontSize := v\<rparr>\<rparr>"
| "update_settings (SetLineHeight v) st = st\<lparr>settings := (settings st)\<lparr>lineHeight := v\<rparr>\<rparr>"
| "update_settings (SetTheme t) st = st\<lparr>settings := (settings st)\<lparr>theme := t\<rparr>\<rparr>"
| "update_settings (SetFontFamily f) st = st\<lparr>settings := (settings st)\<lparr>fontFamily := f\<rparr>\<rparr>"

section \<open>The book service\<close>


record search_result =
  books :: "book list"
  totalCount :: nat
  hasMore :: bool

text \<open>
  The two catalogue searches are network calls: each is a function that gives a result
  or throws (\<open>Inl\<close>). \<open>searchBooks\<close> returns its result together with the providers it
  has called, in order.
\<close>

datatype provider = Gutenberg | OpenLibrary






subsection \<open>Reading progress in \<open>localStorage\<close>\<close>

text \<open>
  \<open>localStorage\<close> is a map from keys to texts. The object that \<open>saveReadingProgress\<close>
  stores has an integer, a boolean and a string member; \<open>JSON.stringify\<close> and
  \<open>JSON.parse\<close> are modelled on the texts of such objects (an integer in decimal
  digits, a string with the JSON escapes). The time stamp is the text that
  \<open>new Date().toISOString()\<close> returns at the call.
\<close>

datatype json = JNum int | JBool bool | JStr string

definition dq :: char where
  "dq = CHR 0x22"

definition bslash :: char where
  "bslash = CHR 0x5C"

definition digit_char :: "nat \<Rightarrow> char" where
  "digit_char n = char_of (48 + n)"

fun show_nat :: "nat \<Rightarrow> string" where
  "show_nat n = (if n < 10 then [digit_char n] else show_nat (n div 10) @ [digit_char (n mod 10)])"

declare show_nat.simps [simp del]

definition show_int :: "int \<Rightarrow> string" where
  "show_int i = (if i < 0 then CHR ''-'' # show_nat (nat (- i)) else show_nat (nat i))"

definition low_hex :: "nat \<Rightarrow> char" where
  "low_hex n = (if n < 10 then char_of (48 + n) else char_of (87 + n))"

definition escape_char :: "char \<Rightarrow> string" where
  "escape_char c =
     (let n = (of_char c :: nat) in
      if c = dq then [bslash, dq]
      else if c = bslash then [bslash, bslash]
      else if n = 8 then [bslash, CHR ''b'']
      else if n = 9 then [bslash, CHR ''t'']
      else if n = 10 then [bslash, CHR ''n'']
      else if n = 12 then [bslash, CHR ''f'']
      else if n = 13 then [bslash, CHR ''r'']
      else if n < 32 then [bslash, CHR ''u'', CHR ''0'', CHR ''0'', low_hex (n div 16), low_hex (n mod 16)]
      else [c])"

definition quote :: "string \<Rightarrow> string" where
  "quote s = dq # concat (map escape_char s) @ [dq]"

definition stringify_progress :: "int \<Rightarrow> bool \<Rightarrow> string \<Rightarrow> string" where
  "stringify_progress pg bm stamp =
     ''{'' @ quote ''page'' @ '':'' @ show_int pg @
     '','' @ quote ''isBookmarked'' @ '':'' @ (if bm then ''true'' else ''false'') @
     '','' @ quote ''lastRead'' @ '':'' @ quote stamp @ ''}''"

fun strip_prefix :: "string \<Rightarrow> string \<Rightarrow> string option" where
  "strip_prefix [] s = Some s"
| "strip_prefix (p # ps) [] = None"
| "strip_prefix (p # ps) (x # xs) = (if p = x then strip_prefix ps xs else None)"

definition read_nat :: "string \<Rightarrow> (nat \<times> string) option" where
  "read_nat s =
     (let ds = takeWhile is_digit s in
      if ds = [] then None
      else Some (foldl (\<lambda>a d. 10 * a + ((of_char d :: nat) - 48)) 0 ds, dropWhile is_digit s))"

definition read_int :: "string \<Rightarrow> (int \<times> string) option" where
  "read_int s =
     (case s of
        [] \<Rightarrow> None
      | c # r \<Rightarrow>
          if c = CHR ''-'' then map_option (\<lambda>(n, t). (- int n, t)) (read_nat r)
          else map_option (\<lambda>(n, t). (int n, t)) (read_nat s))"

definition read_bool :: "string \<Rightarrow> (bool \<times> string) option" where
  "read_bool s =
     (case strip_prefix ''true'' s of
        Some r \<Rightarrow> Some (True, r)
      | None \<Rightarrow> map_option (\<lambda>r. (False, r)) (strip_prefix ''false'' s))"

definition hex_value :: "char \<Rightarrow> nat option" where
  "hex_value c =
     (let n = (of_char c :: nat) in
      if 48 \<le> n \<and> n \<le> 57 then Some (n - 48)
      else if 97 \<le> n \<and> n \<le> 102 then Some (n - 87)
      else if 65 \<le> n \<and> n \<le> 70 then Some (n - 55)
      else None)"

text \<open>
  The characters of a JSON string after the opening quote, up to the closing one. An
  escape \<open>\uXXXX\<close> beyond code unit 255 is outside the strings of this model.
\<close>

fun read_chars :: "string \<Rightarrow> string \<Rightarrow> (string \<times> string) option" where
  "read_chars acc [] = None"
| "read_chars acc [c] = (if c = dq then Some (rev acc, []) else None)"
| "read_chars acc (c # e # r) =
     (if c = dq then Some (rev acc, e # r)
      else if c = bslash then
        (if e = dq \<or> e = bslash \<or> e = CHR ''/'' then read_chars (e # acc) r
         else if e = CHR ''b'' then read_chars (CHR 0x08 # acc) r
         else if e = CHR ''t'' then read_chars (CHR 0x09 # acc) r
         else if e = CHR ''n'' then read_chars (CHR 0x0A # acc) r
         else if e = CHR ''f'' then read_chars (CHR 0x0C # acc) r
         else if e = CHR ''r'' then read_chars (CHR 0x0D # acc) r
         else if e = CHR ''u'' then
           (case r of
              h1 # h2 # h3 # h4 # r' \<Rightarrow>
                (case (hex_value h1, hex_value h2, hex_value h3, hex_value h4) of
                   (Some a, Some b, Some c', Some d) \<Rightarrow>
                     (if a = 0 \<and> b = 0 then read_chars (char_of (16 * c' + d) # acc) r' else None)
                 | _ \<Rightarrow> None)
            | _ \<Rightarrow> None)
         else None)
      else if (of_char c :: nat) < 32 then None
      else read_chars (c # acc) (e # r))"

definition read_string :: "string \<Rightarrow> (string \<times> string) option" where
  "read_string s = (case s of [] \<Rightarrow> None | c # r \<Rightarrow> if c = dq then read_chars [] r else None)"

definition parse_progress :: "string \<Rightarrow> (string \<times> json) list option" where
  "parse_progress s =
     (case strip_prefix (''{'' @ quote ''page'' @ '':'') s of None \<Rightarrow> None | Some s1 \<Rightarrow>
      case read_int s1 of None \<Rightarrow> None | Some (pg, s2) \<Rightarrow>
      case strip_prefix ('','' @ quote ''isBookmarked'' @ '':'') s2 of None \<Rightarrow> None | Some s3 \<Rightarrow>
      case read_bool s3 of None \<Rightarrow> None | Some (bm, s4) \<Rightarrow>
      case strip_prefix ('','' @ quote ''lastRead'' @ '':'') s4 of None \<Rightarrow> None | Some s5 \<Rightarrow>
      case read_string s5 of None \<Rightarrow> None | Some (stamp, s6) \<Rightarrow>
      if s6 = ''}'' then Some [(''page'', JNum pg), (''isBookmarked'', JBool bm), (''lastRead'', JStr stamp)]
      else None)"

datatype storage_error = SyntaxError

definition progress_key :: "string \<Rightarrow> string" where
  "progress_key bookId = ''reading-progress-'' @ bookId"

definition getReadingProgress ::
  "(string \<rightharpoonup> string) \<Rightarrow> string \<Rightarrow> storage_error + (string \<times> json) list option" where
  "getReadingProgress store bookId =
     (case store (progress_key bookId) of
        None \<Rightarrow> Inr None
      | Some progress \<Rightarrow>
          if progress = [] then Inr None
          else (case parse_progress progress of
                  None \<Rightarrow> Inl SyntaxError
                | Some obj \<Rightarrow> Inr (Some obj)))"

definition saveReadingProgress ::
  "string \<Rightarrow> (string \<rightharpoonup> string) \<Rightarrow> string \<Rightarrow> int \<Rightarrow> bool \<Rightarrow> (string \<rightharpoonup> string)" where
  "saveReadingProgress stamp store bookId pg bm =
     store(progress_key bookId \<mapsto> stringify_progress pg bm stamp)"

section \<open>States and inputs of the scenarios\<close>

text \<open>The state of a freshly mounted reader, from its \<open>useState\<close> initialisers.\<close>

definition initial_reader :: reader where
  "initial_reader =
     \<lparr>showSettings = False, content = [], loading = True, error = None, currentPage = 0,
      totalPages = 0, isBookmarked = False,
      settings = \<lparr>fontSize = 18, theme = Light, fontFamily = ''serif'', lineHeight = 16 / 10\<rparr>\<rparr>"

definition book_with_formats :: "(string \<times> string) list \<Rightarrow> book" where
  "book_with_formats fm =
     \<lparr>book_id = ''gutenberg-1'', title = ''Emma'', authors = [''Austen, Jane''],
      coverUrl = None, description = None, publishYear = None, language = None,
      subjects = None, formats = Some fm, downloadCount = None\<rparr>"

text \<open>
  A book has no readable format when none of its format keys contains \<open>text\<close> or
  \<open>html\<close> (the keys \<open>text/html\<close>, \<open>text/plain; charset=utf-8\<close> and \<open>text/plain\<close> do).
\<close>

definition format_keys :: "book \<Rightarrow> string list" where
  "format_keys b = (case formats b of None \<Rightarrow> [] | Some fm \<Rightarrow> map fst fm)"

definition no_readable_format :: "book \<Rightarrow> bool" where
  "no_readable_format b =
     (\<forall>k \<in> set (format_keys b). \<not> str_includes k ''text'' \<and> \<not> str_includes k ''html'')"

text \<open>
  The relay scenario: the direct request for the content URL is answered without
  success, the first relay answers with success and the JSON envelope
  \<open>{"contents": "text"}\<close> as its body, every other request is rejected.
\<close>

definition envelope_text :: string where
  "envelope_text = ''{'' @ quote ''contents'' @ '': '' @ quote ''text'' @ ''}''"

definition relay_scenario :: "string \<Rightarrow> response option" where
  "relay_scenario u =
     (if u = ''https://example.org/book.html'' then Some \<lparr>ok = False, body = []\<rparr>
      else if u = ''https://cors-anywhere.herokuapp.com/'' @ encodeURIComponent ''https://example.org/book.html''
        then Some \<lparr>ok = True, body = envelope_text\<rparr>
      else None)"


text \<open>
  The page index is in range when \<open>0 <= currentPage < totalPages\<close>. The reader of
  an empty book is the state after \<open>processBookContent\<close> of the empty text.
\<close>

definition in_range :: "reader \<Rightarrow> bool" where
  "in_range st = (0 \<le> currentPage st \<and> currentPage st < totalPages st)"

definition empty_book_reader :: reader where
  "empty_book_reader = processBookContent (Text []) ''https://example.org/book.txt'' initial_reader"









section \<open>Notions used to state the properties\<close>

text \<open>
  The words of a text are its maximal runs of characters that are not white space;
  \<open>tokens in_word s\<close> counts the words that start in \<open>s\<close>, given whether the text
  before \<open>s\<close> ends inside a word. A text has a blank line when two line feeds
  follow each other in it.
\<close>

abbreviation (input) nl :: char where "nl \<equiv> CHR 0x0A"


fun tokens :: "bool \<Rightarrow> string \<Rightarrow> nat" where
  "tokens in_word [] = 0"
| "tokens in_word (c # cs) =
     (if is_space c then tokens False cs
      else (if in_word then 0 else 1) + tokens True cs)"

definition word_count :: "string \<Rightarrow> nat" where
  "word_count s = tokens False s"

fun has_blank_line :: "string \<Rightarrow> bool" where
  "has_blank_line (x # y # zs) = ((x = CHR 0x0A \<and> y = CHR 0x0A) \<or> has_blank_line (y # zs))"
| "has_blank_line _ = False"

text \<open>
  The text of a group of paragraphs in the page buffer: each paragraph followed by
  a blank line.
\<close>

definition group_text :: "string list \<Rightarrow> string" where
  "group_text g = concat (map (\<lambda>p. p @ ''\<newline>\<newline>'') g)"

text \<open>
  The positions a greedy \<open>P*\<close> can stop at, the longest run first; the invariant of
  the pagination loop.
\<close>

definition run_states :: "(char \<Rightarrow> bool) \<Rightarrow> string \<Rightarrow> string \<Rightarrow> string option \<Rightarrow> mstate list" where
  "run_states P b a c =
     map (\<lambda>k. (rev (take k a) @ b, drop k a, c)) (rev [0..<Suc (length (takeWhile P a))])"


definition page_inv :: "page_buffer \<Rightarrow> bool" where
  "page_inv st =
     (word_count (currentPageContent st) \<le> wordCount st
      \<and> (wordCount st \<le> 400 \<or> \<not> has_blank_line (trim (currentPageContent st)))
      \<and> (\<forall>pg \<in> set (pages st). has_blank_line pg \<longrightarrow> word_count pg \<le> 400))"


section \<open>Notions used for the normalizer\<close>

text \<open>
  A pattern is found in a text when it matches at some position of it. The patterns
  that the markup branch rewrites before it cleans up white space are the tag and
  entity patterns; those of the plain-text branch that can match again in a
  normalized text are the chapter and the capitals-line patterns.
\<close>

abbreviation (input) cr :: char where "cr \<equiv> CHR 0x0D"


fun finds :: "regex \<Rightarrow> string \<Rightarrow> string \<Rightarrow> bool" where
  "finds r b [] = (matches r (b, [], None) \<noteq> [])"
| "finds r b (x # xs) = (matches r (b, x # xs, None) \<noteq> [] \<or> finds r (x # b) xs)"

definition found_in :: "regex \<Rightarrow> string \<Rightarrow> bool" where
  "found_in r s = finds r [] s"

definition markup_patterns :: "regex list" where
  "markup_patterns =
     [re_script, re_style, re_heading, re_p_close, re_p_open, re_br, re_tag,
      str ''&nbsp;'', str ''&amp;'', str ''&lt;'', str ''&gt;'', str ''&quot;'', str ''&apos;'']"

definition plain_patterns :: "regex list" where
  "plain_patterns = [re_chapter, re_caps_line]"


text \<open>
  The white-space clean-up in closed form. A blank is a space or a TAB.
  \<open>squeeze_blanks\<close> turns each run of blanks into one space (the flag tells that the
  characters before belong to the run), \<open>strip_after_nl\<close> deletes the blanks that
  follow a line feed, \<open>strip_before_nl\<close> those that precede one, \<open>squeeze_nl\<close> keeps
  two line feeds of a run of three or more. The predicates state that a text has no
  pair of neighbours of a kind, and no three line feeds in a row.
\<close>

definition is_blank :: "char \<Rightarrow> bool" where
  "is_blank x = (x = CHR '' '' \<or> x = CHR 0x09)"

fun squeeze_blanks :: "bool \<Rightarrow> string \<Rightarrow> string" where
  "squeeze_blanks r [] = []"
| "squeeze_blanks r (x # xs) =
     (if is_blank x then (if r then squeeze_blanks True xs else CHR '' '' # squeeze_blanks True xs) else x # squeeze_blanks False xs)"

fun strip_after_nl :: "bool \<Rightarrow> string \<Rightarrow> string" where
  "strip_after_nl d [] = []"
| "strip_after_nl d (x # xs) = (if d \<and> is_blank x then strip_after_nl True xs else x # strip_after_nl (x = nl) xs)"

definition leads_to_nl :: "string \<Rightarrow> bool" where
  "leads_to_nl xs = (case dropWhile is_blank xs of [] \<Rightarrow> False | y # _ \<Rightarrow> y = nl)"

fun strip_before_nl :: "string \<Rightarrow> string" where
  "strip_before_nl [] = []"
| "strip_before_nl (x # xs) = (if is_blank x \<and> leads_to_nl xs then strip_before_nl xs else x # strip_before_nl xs)"

definition starts_nl2 :: "string \<Rightarrow> bool" where
  "starts_nl2 xs = (case xs of y # z # _ \<Rightarrow> y = nl \<and> z = nl | _ \<Rightarrow> False)"

fun squeeze_nl :: "string \<Rightarrow> string" where
  "squeeze_nl [] = []"
| "squeeze_nl (x # xs) = (if x = nl \<and> starts_nl2 xs then squeeze_nl xs else x # squeeze_nl xs)"

fun nopair :: "(char \<Rightarrow> char \<Rightarrow> bool) \<Rightarrow> string \<Rightarrow> bool" where
  "nopair Q (x # y # zs) = (\<not> Q x y \<and> nopair Q (y # zs))"
| "nopair Q _ = True"

fun nonl3 :: "string \<Rightarrow> bool" where
  "nonl3 (x # xs) = (\<not> (x = nl \<and> starts_nl2 xs) \<and> nonl3 xs)"
| "nonl3 [] = True"

definition blank_blank :: "char \<Rightarrow> char \<Rightarrow> bool" where "blank_blank x y = (is_blank x \<and> is_blank y)"
definition nl_blank :: "char \<Rightarrow> char \<Rightarrow> bool" where "nl_blank x y = (x = nl \<and> is_blank y)"
definition blank_nl :: "char \<Rightarrow> char \<Rightarrow> bool" where "blank_nl x y = (is_blank x \<and> y = nl)"

definition notab :: "string \<Rightarrow> bool" where "notab s = (CHR 0x09 \<notin> set s)"


definition tidy_markup :: "string \<Rightarrow> string" where
  "tidy_markup s = trim (squeeze_nl (strip_before_nl (strip_after_nl False (squeeze_blanks False s))))"

definition tidy_plain :: "string \<Rightarrow> string" where
  "tidy_plain s = trim (squeeze_nl (squeeze_blanks False s))"


text \<open>The characters of a position of the matcher and of a replacement text.\<close>

fun state_chars :: "mstate \<Rightarrow> char set" where
  "state_chars (b, a, c) = set b \<union> set a \<union> (case c of None \<Rightarrow> {} | Some g \<Rightarrow> set g)"


fun piece_chars :: "piece \<Rightarrow> char set" where
  "piece_chars (Txt t) = set t"
| "piece_chars Grp1 = {}"


section \<open>Facts about the matcher\<close>


lemma seq_simps: "seq [] = Eps" "seq (r # rs) = Seq r (seq rs)"
  by (simp_all add: seq_def)

lemma concat_map_single: "concat (map (\<lambda>s. [s]) xs) = xs"
  by (induction xs) simp_all

lemma matches_eps_fun: "matches Eps = (\<lambda>s. [s])"
  by (rule ext) simp

lemma matches_seq_eps: "matches (Seq r Eps) st = matches r st"
  by (simp add: matches_eps_fun concat_map_single)

lemma run_states_stop:
  "a = [] \<or> \<not> P (hd a) \<Longrightarrow> run_states P b a c = [(b, a, c)]"
  by (cases a) (auto simp: run_states_def)

lemma run_states_step:
  assumes "P x"
  shows "run_states P b (x # xs) c = run_states P (x # b) xs c @ [(b, x # xs, c)]"
proof -
  let ?L = "length (takeWhile P xs)"
  have u: "[0..<Suc (Suc ?L)] = 0 # map Suc [0..<Suc ?L]"
    by (simp only: map_Suc_upt upt_conv_Cons[of 0 "Suc (Suc ?L)"])
  show ?thesis
    using assms by (simp add: run_states_def u rev_map del: upt_Suc)
qed

lemma iter_greedy_atom:
  "length (takeWhile P a) \<le> n \<Longrightarrow>
   iter_greedy (matches (Atom P)) n (b, a, c) = run_states P b a c"
proof (induction a arbitrary: n b)
  case Nil
  then show ?case by (cases n) (simp_all add: run_states_stop)
next
  case (Cons x xs)
  show ?case
  proof (cases "P x")
    case False
    then show ?thesis by (cases n) (simp_all add: run_states_stop)
  next
    case True
    with Cons.prems obtain m where n: "n = Suc m" and m: "length (takeWhile P xs) \<le> m"
      by (cases n) auto
    show ?thesis
      using True by (simp add: n Cons.IH[OF m] run_states_step)
  qed
qed

lemma matches_star_atom:
  "matches (Star (Atom P)) (b, a, c) = run_states P b a c"
  by (simp add: iter_greedy_atom[OF length_takeWhile_le])

lemma run_states_hd:
  "hd (run_states P b a c) = (rev (takeWhile P a) @ b, dropWhile P a, c)"
  "run_states P b a c \<noteq> []"
proof -
  have "rev [0..<Suc (length (takeWhile P a))] = length (takeWhile P a) # rev [0..<length (takeWhile P a)]"
    by simp
  then have "hd (run_states P b a c) =
      (rev (take (length (takeWhile P a)) a) @ b, drop (length (takeWhile P a)) a, c)"
    by (simp add: run_states_def)
  then show "hd (run_states P b a c) = (rev (takeWhile P a) @ b, dropWhile P a, c)"
    by (simp add: takeWhile_eq_take[symmetric] dropWhile_eq_drop[symmetric])
  show "run_states P b a c \<noteq> []" by (simp add: run_states_def)
qed

lemma matches_plus_atom:
  "matches (plus (Atom P)) (b, a, c) =
     (case a of [] \<Rightarrow> [] | x # xs \<Rightarrow> if P x then run_states P (x # b) xs c else [])"
  by (cases a) (simp_all add: plus_def iter_greedy_atom[OF length_takeWhile_le])


lemma split_from_skip:
  "0 < skip \<Longrightarrow> split_from r b (x # xs) skip cur = split_from r (x # b) xs (skip - 1) cur"
  by simp

lemma split_from_nomatch:
  "matches r (b, x # xs, None) = [] \<Longrightarrow>
   split_from r b (x # xs) 0 cur = split_from r (x # b) xs 0 (x # cur)"
  by simp

lemma split_from_match:
  assumes "matches r (b, x # xs, None) = (b', a', c') # rest" and "length a' \<le> length xs"
  shows "split_from r b (x # xs) 0 cur = rev cur # split_from r (x # b) xs (length xs - length a') []"
proof -
  have "length (x # xs) - length a' = Suc (length xs - length a')"
    using assms(2) by simp
  then show ?thesis using assms by (simp add: Let_def)
qed

lemma replace_from_skip:
  "0 < skip \<Longrightarrow> replace_from r rep b (x # xs) skip = replace_from r rep (x # b) xs (skip - 1)"
  by simp

lemma replace_from_nomatch:
  "matches r (b, x # xs, None) = [] \<Longrightarrow>
   replace_from r rep b (x # xs) 0 = x # replace_from r rep (x # b) xs 0"
  by simp

lemma replace_from_match:
  assumes "matches r (b, x # xs, None) = (b', a', c') # rest" and "length a' \<le> length xs"
  shows "replace_from r rep b (x # xs) 0 =
           expand rep c' @ replace_from r rep (x # b) xs (length xs - length a')"
proof -
  have "length (x # xs) - length a' = Suc (length xs - length a')"
    using assms(2) by simp
  then show ?thesis using assms(1) by (simp add: Let_def)
qed

section \<open>Properties of the content fetcher\<close>

lemma process_text_error:
  "error (processBookContent (Text t) u st) = error st"
  "loading (processBookContent (Text t) u st) = False"
  by (simp_all add: processBookContent_def Let_def)

lemma format_url_absent: "k \<notin> fst ` set fm \<Longrightarrow> format_url fm k = []"
  by (simp add: format_url_def map_of_eq_None_iff[THEN iffD2])

lemma no_readable_url:
  assumes "no_readable_format b"
  shows "select_content_url b = []"
proof -
  define fm where "fm = (case formats b of None \<Rightarrow> [] | Some f \<Rightarrow> f)"
  have fk: "format_keys b = map fst fm"
    by (simp add: format_keys_def fm_def split: option.splits)
  have keys: "\<And>k. k \<in> fst ` set fm \<Longrightarrow> \<not> str_includes k ''text'' \<and> \<not> str_includes k ''html''"
    using assms by (auto simp add: no_readable_format_def fk)
  have a: "''text/html'' \<notin> fst ` set fm"
    using keys[of "''text/html''"] by auto
  have b: "''text/plain; charset=utf-8'' \<notin> fst ` set fm"
    using keys[of "''text/plain; charset=utf-8''"] by auto
  have c: "''text/plain'' \<notin> fst ` set fm"
    using keys[of "''text/plain''"] by auto
  have d: "filter (\<lambda>format. str_includes format ''text'' \<or> str_includes format ''html'') (map fst fm) = []"
    using keys by (simp add: filter_empty_conv)
  show ?thesis
    unfolding select_content_url_def fm_def[symmetric] Let_def
    by (simp add: format_url_absent[OF a] format_url_absent[OF b] format_url_absent[OF c] d)
qed

text \<open>
  C1, as the code has it. For a book without a readable format, \<open>loadBookContent\<close> raises
  the no-readable-format error before any network call (the list of fetched URLs is
  empty), but its own \<open>catch\<close> takes the error: the demo passage is processed as markup,
  and the reader ends the load with no error set and \<open>loading\<close> false.
\<close>

theorem no_readable_format_absorbed:
  assumes "no_readable_format b"
  shows "fetch_content fetch json b = (Inl NoReadableFormat, [])
    \<and> loadBookContent fetch json b st =
        (processBookContent (Text (generateDemoContent b)) ''demo''
           (st\<lparr>loading := True, error := None\<rparr>), [])
    \<and> error (fst (loadBookContent fetch json b st)) = None
    \<and> \<not> loading (fst (loadBookContent fetch json b st))
    \<and> content (fst (loadBookContent fetch json b st)) = normalize_markup (generateDemoContent b)"
proof -
  have f: "fetch_content fetch json b = (Inl NoReadableFormat, [])"
    by (simp add: fetch_content_def no_readable_url[OF assms])
  have l: "loadBookContent fetch json b st =
           (processBookContent (Text (generateDemoContent b)) ''demo''
              (st\<lparr>loading := True, error := None\<rparr>), [])"
    by (simp add: loadBookContent_def f)
  have e: "error (fst (loadBookContent fetch json b st)) = None"
    by (simp add: l process_text_error)
  have g: "\<not> loading (fst (loadBookContent fetch json b st))"
    by (simp add: l process_text_error)
  have c: "content (fst (loadBookContent fetch json b st)) = normalize_markup (generateDemoContent b)"
    by (simp add: l processBookContent_def Let_def)
  from f l e g c show ?thesis by blast
qed

text \<open>A book whose only format is a PDF: nothing is fetched and no error is set.\<close>

theorem no_readable_format_absorbed_witness:
  "no_readable_format (book_with_formats [(''application/pdf'', ''https://example.org/1.pdf'')])
   \<and> fetch_content (\<lambda>u. None) (\<lambda>s. JsonThrows)
        (book_with_formats [(''application/pdf'', ''https://example.org/1.pdf'')])
      = (Inl NoReadableFormat, [])
   \<and> error (fst (loadBookContent (\<lambda>u. None) (\<lambda>s. JsonThrows)
        (book_with_formats [(''application/pdf'', ''https://example.org/1.pdf'')]) initial_reader)) = None"
proof -
  have h: "no_readable_format (book_with_formats [(''application/pdf'', ''https://example.org/1.pdf'')])"
    by (simp add: no_readable_format_def format_keys_def book_with_formats_def)
  show ?thesis
    using h no_readable_format_absorbed[OF h, of "\<lambda>u. None" "\<lambda>s. JsonThrows" initial_reader]
    by blast
qed

text \<open>
  C1 as stated fails for the book with an empty formats map: the error is raised and
  nothing is fetched, yet the load ends with no error and the reader is not loading.
\<close>

theorem no_readable_format_counterexample:
  "fst (fetch_content (\<lambda>u. None) (\<lambda>s. JsonThrows) (book_with_formats [])) = Inl NoReadableFormat
   \<and> snd (loadBookContent (\<lambda>u. None) (\<lambda>s. JsonThrows) (book_with_formats []) initial_reader) = []
   \<and> error (fst (loadBookContent (\<lambda>u. None) (\<lambda>s. JsonThrows) (book_with_formats []) initial_reader)) = None
   \<and> \<not> loading (fst (loadBookContent (\<lambda>u. None) (\<lambda>s. JsonThrows) (book_with_formats []) initial_reader))"
  by (simp add: loadBookContent_def fetch_content_def select_content_url_def format_url_def
        book_with_formats_def process_text_error)

lemma select_example: "select_content_url (book_with_formats [(''text/html'', ''https://example.org/book.html'')]) = ''https://example.org/book.html''"
  by (simp add: select_content_url_def book_with_formats_def format_url_def)

lemma enc_example: "encodeURIComponent ''https://example.org/book.html'' = ''https%3A%2F%2Fexample.org%2Fbook.html''"
  by code_simp

text \<open>
  C5 as stated fails in the relay scenario: the text handed to the normalizer is the
  body of the relay's response as it is, the envelope, and not the text inside it.
\<close>

theorem relay_envelope_counterexample:
  "fst (fetch_content relay_scenario (\<lambda>s. Contents ''text'')
          (book_with_formats [(''text/html'', ''https://example.org/book.html'')]))
     = Inr (Text envelope_text, ''https://example.org/book.html'')
   \<and> envelope_text \<noteq> ''text''"
proof -
  have "envelope_text \<noteq> ''text''"
    by (simp add: envelope_text_def)
  moreover have "fst (fetch_content relay_scenario (\<lambda>s. Contents ''text'')
          (book_with_formats [(''text/html'', ''https://example.org/book.html'')]))
     = Inr (Text envelope_text, ''https://example.org/book.html'')"
    by (simp add: fetch_content_def select_example relay_scenario_def enc_example corsProxies_def Let_def)
  ultimately show ?thesis by simp
qed

lemma first_proxy_raw:
  "\<not> str_includes (hd corsProxies) ''allorigins''"
  by (simp add: corsProxies_def)

text \<open>
  C5, as the code has it. When the direct request fails (it is rejected or its status is
  not a success) and the first relay answers with success, the fetched text is the
  body of the relay's response, whatever its JSON reading is: the envelope branch is
  taken only for a relay whose URL contains \<open>allorigins\<close>, and the first relay's does
  not. The text is classified by the content URL of the book: markup when that URL
  contains \<open>html\<close>, plain text otherwise.
\<close>

theorem first_relay_raw_body:
  assumes "select_content_url b = url" and "url \<noteq> []"
    and "case fetch url of None \<Rightarrow> True | Some r0 \<Rightarrow> \<not> ok r0"
    and "fetch (hd corsProxies @ encodeURIComponent url) = Some r" and "ok r"
  shows "fetch_content fetch json b =
           (Inr (Text (body r), url), [url, hd corsProxies @ encodeURIComponent url])
    \<and> content (fst (loadBookContent fetch json b st)) =
        (if str_includes url ''html'' \<or> url = ''demo'' then normalize_markup (body r)
         else normalize_plain (body r))"
proof -
  have p: "try_proxies fetch json url corsProxies =
             (Some (Text (body r)), [hd corsProxies @ encodeURIComponent url])"
    using assms(4,5) by (simp add: corsProxies_def)
  have d: "(case fetch url of None \<Rightarrow> None
            | Some response \<Rightarrow> if ok response then Some (body response) else None) = None"
    using assms(3) by (auto split: option.splits)
  have f: "fetch_content fetch json b =
           (Inr (Text (body r), url), [url, hd corsProxies @ encodeURIComponent url])"
    unfolding fetch_content_def Let_def assms(1) using assms(2) by (simp add: d p)
  show ?thesis
    by (simp add: f loadBookContent_def processBookContent_def Let_def)
qed

text \<open>The relay scenario satisfies the hypotheses.\<close>

theorem first_relay_raw_body_witness:
  "fetch_content relay_scenario (\<lambda>s. Contents ''text'')
          (book_with_formats [(''text/html'', ''https://example.org/book.html'')])
     = (Inr (Text envelope_text, ''https://example.org/book.html''),
        [''https://example.org/book.html'',
         ''https://cors-anywhere.herokuapp.com/https%3A%2F%2Fexample.org%2Fbook.html''])"
proof -
  have 1: "select_content_url (book_with_formats [(''text/html'', ''https://example.org/book.html'')]) = ''https://example.org/book.html''"
    by (rule select_example)
  have 2: "''https://example.org/book.html'' \<noteq> []" by simp
  have 3: "case relay_scenario ''https://example.org/book.html'' of None \<Rightarrow> True | Some r0 \<Rightarrow> \<not> ok r0"
    by (simp add: relay_scenario_def)
  have 4: "relay_scenario (hd corsProxies @ encodeURIComponent ''https://example.org/book.html'')
             = Some \<lparr>ok = True, body = envelope_text\<rparr>"
    by (simp add: relay_scenario_def corsProxies_def enc_example)
  have 5: "ok \<lparr>ok = True, body = envelope_text\<rparr>" by simp
  show ?thesis
    using first_relay_raw_body[OF 1 2 3 4 5, of "\<lambda>s. Contents ''text''" initial_reader]
    by (simp add: corsProxies_def enc_example)
qed


section \<open>Properties of the paginator\<close>

lemma render_step_eq: "render_step = load_step"
  by (intro ext) (simp add: render_step_def load_step_def)

lemma load_pages_Nil: "load_pages [] = []"
  by code_simp

text \<open>
  C4. The pagination at load time and the pagination at render time compute the same
  list of pages for every content string, so the page count stored by
  \<open>processBookContent\<close> is the length of the list that \<open>getCurrentPageContent\<close> indexes,
  and the text shown is the page of the load-time list at the current index (the empty
  text when there is no such page).
\<close>

theorem pagination_paths_agree:
  "render_pages text = load_pages text
   \<and> length (render_pages text) = length (load_pages text)
   \<and> totalPages (processBookContent (Text t) u st) =
       int (length (render_pages (content (processBookContent (Text t) u st))))
   \<and> getCurrentPageContent st =
       (if 0 \<le> currentPage st \<and> currentPage st < int (length (load_pages (content st)))
        then load_pages (content st) ! nat (currentPage st) else [])"
proof -
  have r: "\<And>s. render_pages s = load_pages s"
    by (simp add: render_pages_def load_pages_def render_step_eq)
  have g: "getCurrentPageContent st =
       (if 0 \<le> currentPage st \<and> currentPage st < int (length (load_pages (content st)))
        then load_pages (content st) ! nat (currentPage st) else [])"
  proof (cases "content st = []")
    case True
    have n: "\<not> (0 \<le> currentPage st \<and> currentPage st < int (length (load_pages (content st))))"
      by (simp add: True load_pages_Nil)
    have "getCurrentPageContent st = []"
      by (simp add: getCurrentPageContent_def True)
    then show ?thesis
      by (simp only: if_not_P[OF n])
  next
    case False
    then show ?thesis
      by (simp add: getCurrentPageContent_def r Let_def)
  qed
  show ?thesis
    using g by (simp add: r processBookContent_def Let_def)
qed

subsection \<open>Paragraphs and words\<close>

lemma run_states_Cons:
  "run_states P b a c = (rev (takeWhile P a) @ b, dropWhile P a, c) # tl (run_states P b a c)"
  using run_states_hd[of P b a c] by (cases "run_states P b a c") simp_all

lemma pb_match:
  "matches re_paragraph_break (b, a, c) =
     (case a of
        x # y # ys \<Rightarrow> if x = nl \<and> y = nl then run_states (\<lambda>z. z = nl) (y # x # b) ys c else []
      | _ \<Rightarrow> [])"
  by (auto simp: re_paragraph_break_def seq_simps chr_def matches_plus_atom matches_eps_fun
        concat_map_single split: list.splits)

lemma spaces_match:
  "matches re_spaces (b, a, c) =
     (case a of [] \<Rightarrow> [] | x # xs \<Rightarrow> if is_space x then run_states is_space (x # b) xs c else [])"
  by (simp add: re_spaces_def matches_plus_atom)

lemma hbl_snoc:
  "has_blank_line (s @ [x]) = (has_blank_line s \<or> (s \<noteq> [] \<and> last s = nl \<and> x = nl))"
  by (induction s rule: has_blank_line.induct) auto

lemma hbl_append_left: "has_blank_line v \<Longrightarrow> has_blank_line (u @ v)"
proof (induction u)
  case Nil then show ?case by simp
next
  case (Cons x u)
  then show ?case by (cases "u @ v") auto
qed

lemma hbl_append_right: "has_blank_line u \<Longrightarrow> has_blank_line (u @ v)"
  by (induction u rule: has_blank_line.induct) auto

lemma split_pb_no_blank_line:
  assumes "\<not> has_blank_line (rev cur)"
    and "0 < skip \<longrightarrow> cur = []"
    and "skip = 0 \<and> cur \<noteq> [] \<and> hd cur = nl \<longrightarrow> (a = [] \<or> hd a \<noteq> nl)"
  shows "\<forall>p \<in> set (split_from re_paragraph_break b a skip cur). \<not> has_blank_line p"
  using assms
proof (induction a arbitrary: b skip cur)
  case Nil
  then show ?case by simp
next
  case (Cons x xs)
  show ?case
  proof (cases "0 < skip")
    case True
    then have c: "cur = []" using Cons.prems by simp
    have "\<forall>p\<in>set (split_from re_paragraph_break (x # b) xs (skip - 1) []). \<not> has_blank_line p"
      by (rule Cons.IH) simp_all
    then show ?thesis using True c by simp
  next
    case False
    then have s0: "skip = 0" by simp
    show ?thesis
    proof (cases "x = nl \<and> xs \<noteq> [] \<and> hd xs = nl")
      case True
      then obtain ys where xs: "xs = nl # ys" by (cases xs) auto
      let ?a' = "dropWhile (\<lambda>z. z = nl) ys"
      have len: "length ?a' \<le> length ys" by (rule length_dropWhile_le)
      have m: "matches re_paragraph_break (b, x # xs, None) =
                 (rev (takeWhile (\<lambda>z. z = nl) ys) @ nl # x # b, ?a', None)
                 # tl (run_states (\<lambda>z. z = nl) (nl # x # b) ys None)"
        using True by (simp add: pb_match xs run_states_Cons[symmetric])
      have n: "length (x # xs) - length ?a' \<noteq> 0" using len by (simp add: xs)
      have ih: "\<forall>p\<in>set (split_from re_paragraph_break (x # b) xs (length (x # xs) - length ?a' - 1) []).
                  \<not> has_blank_line p"
        by (rule Cons.IH) simp_all
      show ?thesis
        using ih n Cons.prems(1) by (simp add: s0 m Let_def del: split_from.simps(2) has_blank_line.simps)
          (simp add: s0 m Let_def)
    next
      case nomatch: False
      then have m: "matches re_paragraph_break (b, x # xs, None) = []"
        by (auto simp: pb_match split: list.splits)
      have "has_blank_line (rev cur @ [x]) =
              (has_blank_line (rev cur) \<or> (rev cur \<noteq> [] \<and> last (rev cur) = nl \<and> x = nl))"
        by (rule hbl_snoc)
      moreover have "cur \<noteq> [] \<and> hd cur = nl \<longrightarrow> x \<noteq> nl"
        using Cons.prems(3) s0 by simp
      ultimately have 1: "\<not> has_blank_line (rev (x # cur))"
        using Cons.prems(1) by (auto simp: last_rev)
      have 3: "(0::nat) = 0 \<and> x # cur \<noteq> [] \<and> hd (x # cur) = nl \<longrightarrow> (xs = [] \<or> hd xs \<noteq> nl)"
        using nomatch by auto
      have "\<forall>p\<in>set (split_from re_paragraph_break (x # b) xs 0 (x # cur)). \<not> has_blank_line p"
        by (rule Cons.IH[OF 1 _ 3]) simp
      then show ?thesis by (simp add: s0 m)
    qed
  qed
qed

lemma split_re_pb_no_blank_line:
  "\<forall>p \<in> set (split_re re_paragraph_break s). \<not> has_blank_line p"
proof (cases "s = []")
  case True
  then show ?thesis by (simp add: split_re_def)
next
  case False
  have "\<forall>p \<in> set (split_from re_paragraph_break [] s 0 []). \<not> has_blank_line p"
    by (rule split_pb_no_blank_line) simp_all
  then show ?thesis using False by (simp add: split_re_def)
qed

lemma split_pb_single:
  "\<not> has_blank_line a \<Longrightarrow> split_from re_paragraph_break b a 0 cur = [rev cur @ a]"
proof (induction a arbitrary: b cur)
  case Nil
  then show ?case by simp
next
  case (Cons x xs)
  have m: "matches re_paragraph_break (b, x # xs, None) = []"
    using Cons.prems by (auto simp: pb_match split: list.splits)
  have "\<not> has_blank_line xs" using Cons.prems by (cases xs) auto
  then show ?case using Cons.IH[of "x # b" "x # cur"] by (simp add: m)
qed

lemma split_re_pb_single:
  "\<not> has_blank_line s \<Longrightarrow> length (split_re re_paragraph_break s) \<le> 1"
  by (cases "s = []") (simp_all add: split_re_def split_pb_single)

lemma tokens_True_le: "tokens True s \<le> tokens False s"
  by (cases s) simp_all

lemma tokens_all_space: "\<forall>c \<in> set s. is_space c \<Longrightarrow> tokens w s = 0"
  by (induction s arbitrary: w) simp_all

lemma tokens_append_le: "tokens w (u @ v) \<le> tokens w u + tokens False v"
proof (induction u arbitrary: w)
  case Nil
  show ?case using tokens_True_le[of v] by (cases w) simp_all
next
  case (Cons x u)
  show ?case using Cons[of False] Cons[of True] by simp
qed

lemma tokens_append_spaces: "\<forall>c \<in> set v. is_space c \<Longrightarrow> tokens w (u @ v) = tokens w u"
  by (induction u arbitrary: w) (simp_all add: tokens_all_space)

lemma tokens_dropWhile: "tokens False (dropWhile is_space s) = tokens False s"
  by (induction s) simp_all

lemma strip_right: "s = rev (dropWhile P (rev s)) @ rev (takeWhile P (rev s))"
proof -
  have "rev (dropWhile P (rev s)) @ rev (takeWhile P (rev s))
          = rev (takeWhile P (rev s) @ dropWhile P (rev s))"
    by (simp only: rev_append)
  also have "\<dots> = rev (rev s)" by (simp only: takeWhile_dropWhile_id)
  finally show ?thesis by simp
qed

lemma tokens_strip_right: "tokens w (rev (dropWhile is_space (rev s))) = tokens w s"
proof -
  have a: "\<forall>c \<in> set (rev (takeWhile is_space (rev s))). is_space c"
    by (auto dest: set_takeWhileD)
  show ?thesis
    using tokens_append_spaces[OF a, of w "rev (dropWhile is_space (rev s))"]
    by (simp add: strip_right[symmetric])
qed

lemma word_count_trim: "word_count (trim s) = word_count s"
  by (simp add: word_count_def trim_def tokens_strip_right tokens_dropWhile)

lemma split_spaces_count:
  assumes "0 < skip \<longrightarrow> cur = [] \<and> skip \<le> length (takeWhile is_space a)"
  shows "tokens (cur \<noteq> []) a + (if cur \<noteq> [] then 1 else 0)
           \<le> length (split_from re_spaces b a skip cur)"
  using assms
proof (induction a arbitrary: b skip cur)
  case Nil
  then show ?case by simp
next
  case (Cons x xs)
  show ?case
  proof (cases "0 < skip")
    case True
    then have c: "cur = []" and k: "skip \<le> length (takeWhile is_space (x # xs))"
      using Cons.prems by simp_all
    have sx: "is_space x" using True k by (cases "is_space x") simp_all
    have "tokens False xs \<le> length (split_from re_spaces (x # b) xs (skip - 1) [])"
    proof -
      have "0 < skip - 1 \<longrightarrow> ([]::string) = [] \<and> skip - 1 \<le> length (takeWhile is_space xs)"
        using k sx by auto
      from Cons.IH[OF this, of "x # b"] show ?thesis by simp
    qed
    then show ?thesis using True c sx by simp
  next
    case False
    then have s0: "skip = 0" by simp
    show ?thesis
    proof (cases "is_space x")
      case True
      let ?a' = "dropWhile is_space xs"
      have m: "matches re_spaces (b, x # xs, None) =
                 (rev (takeWhile is_space xs) @ x # b, ?a', None) # tl (run_states is_space (x # b) xs None)"
        using True by (simp add: spaces_match run_states_Cons[symmetric])
      have l: "length xs = length (takeWhile is_space xs) + length ?a'"
        by (metis length_append takeWhile_dropWhile_id)
      have st: "split_from re_spaces b (x # xs) 0 cur =
                  rev cur # split_from re_spaces (x # b) xs (length xs - length ?a') []"
        by (rule split_from_match[OF m]) (rule length_dropWhile_le)
      have ih: "tokens False xs
            \<le> length (split_from re_spaces (x # b) xs (length (takeWhile is_space xs)) [])"
        using Cons.IH[of "length (takeWhile is_space xs)" "[]" "x # b"] by simp
      have "length xs - length ?a' = length (takeWhile is_space xs)" using l by simp
      then show ?thesis
        using ih True by (simp add: s0 st del: split_from.simps)
    next
      case False
      then have m: "matches re_spaces (b, x # xs, None) = []"
        by (simp add: spaces_match)
      have ih: "tokens True xs + 1 \<le> length (split_from re_spaces (x # b) xs 0 (x # cur))"
        using Cons.IH[of 0 "x # cur" "x # b"] by simp
      show ?thesis
        using ih False by (cases "cur = []") (simp_all add: s0 m)
    qed
  qed
qed

lemma word_count_le_paragraphWords:
  "word_count p \<le> length (split_re re_spaces (trim p))"
proof (cases "trim p = []")
  case True
  then have "word_count (trim p) = 0" by (simp add: word_count_def)
  then show ?thesis by (simp add: word_count_trim)
next
  case False
  have "tokens False (trim p) \<le> length (split_from re_spaces [] (trim p) 0 [])"
    using split_spaces_count[of 0 "[]" "trim p" "[]"] by simp
  then have "word_count (trim p) \<le> length (split_re re_spaces (trim p))"
    using False by (simp add: split_re_def word_count_def)
  then show ?thesis by (simp add: word_count_trim)
qed

subsection \<open>The invariant of the pagination loop\<close>

lemma all_space_dropWhile: "(\<forall>c \<in> set s. is_space c) \<Longrightarrow> dropWhile is_space s = []"
  by simp

lemma all_dropWhile: "(\<forall>x \<in> set (dropWhile P s). P x) = (\<forall>x \<in> set s. P x)"
  by (induction s) auto

lemma trim_empty_iff: "trim s = [] \<longleftrightarrow> (\<forall>c \<in> set s. is_space c)"
  by (simp add: trim_def all_dropWhile)

lemma trim_append_spaces:
  assumes "\<forall>c \<in> set v. is_space c"
  shows "trim (s @ v) = trim s"
proof (cases "\<forall>c \<in> set s. is_space c")
  case True
  then have "\<forall>c \<in> set (s @ v). is_space c" using assms by auto
  then have "trim (s @ v) = []" by (simp only: trim_empty_iff)
  moreover have "trim s = []" using True by (simp only: trim_empty_iff)
  ultimately show ?thesis by simp
next
  case False
  then have 1: "dropWhile is_space (s @ v) = dropWhile is_space s @ v"
    by (auto simp: dropWhile_append1)
  have "\<forall>c \<in> set (rev v). is_space c" using assms by simp
  then have 2: "dropWhile is_space (rev v @ rev (dropWhile is_space s)) =
             dropWhile is_space (rev (dropWhile is_space s))"
    by (simp only: dropWhile_append2)
  show ?thesis by (simp only: trim_def 1 rev_append 2)
qed

lemma trim_prepend_spaces:
  assumes "\<forall>c \<in> set u. is_space c"
  shows "trim (u @ s) = trim s"
  using assms by (simp add: trim_def dropWhile_append2)

lemma hbl_trim: "has_blank_line (trim s) \<Longrightarrow> has_blank_line s"
proof -
  assume h: "has_blank_line (trim s)"
  let ?d = "dropWhile is_space s"
  have "?d = trim s @ rev (takeWhile is_space (rev ?d))"
    using strip_right[of ?d is_space] by (simp add: trim_def)
  then have "has_blank_line ?d" using hbl_append_right[OF h] by metis
  then have "has_blank_line (takeWhile is_space s @ ?d)" by (rule hbl_append_left)
  then show ?thesis by simp
qed

lemma nn_spaces: "\<forall>c \<in> set ''\<newline>\<newline>''. is_space c"
  by (simp add: is_space_def)

lemma word_count_append_le: "word_count (u @ v) \<le> word_count u + word_count v"
  by (simp add: word_count_def tokens_append_le)

lemma word_count_nn: "word_count (p @ ''\<newline>\<newline>'') = word_count p"
  unfolding word_count_def by (rule tokens_append_spaces[OF nn_spaces])

lemma load_step_inv:
  assumes inv: "page_inv st" and p: "\<not> has_blank_line p"
  shows "page_inv (load_step st p)"
proof -
  let ?pw = "length (split_re re_spaces (trim p))"
  let ?buf = "currentPageContent st"
  have wp: "word_count (p @ ''\<newline>\<newline>'') \<le> ?pw"
    using word_count_le_paragraphWords[of p] by (simp only: word_count_nn)
  have tp: "\<not> has_blank_line (trim (p @ ''\<newline>\<newline>''))"
    using p hbl_trim[of p] by (simp only: trim_append_spaces[OF nn_spaces]) blast
  from inv have i1: "word_count ?buf \<le> wordCount st"
    and i2: "wordCount st \<le> 400 \<or> \<not> has_blank_line (trim ?buf)"
    and i3: "\<forall>pg \<in> set (pages st). has_blank_line pg \<longrightarrow> word_count pg \<le> 400"
    by (simp_all add: page_inv_def)
  show ?thesis
  proof (cases "wordCount st + ?pw > 400 \<and> trim ?buf \<noteq> []")
    case True
    have ls: "load_step st p =
        \<lparr>pages = pages st @ [trim ?buf], currentPageContent = p @ ''\<newline>\<newline>'', wordCount = ?pw\<rparr>"
      using True by (simp add: load_step_def Let_def)
    have "has_blank_line (trim ?buf) \<longrightarrow> word_count (trim ?buf) \<le> 400"
      using i1 i2 by (auto simp: word_count_trim)
    then show ?thesis
      using wp tp i3 by (simp add: ls page_inv_def)
  next
    case False
    have ls: "load_step st p =
        \<lparr>pages = pages st, currentPageContent = ?buf @ p @ ''\<newline>\<newline>'',
         wordCount = wordCount st + ?pw\<rparr>"
      using False by (auto simp add: load_step_def Let_def)
    have wc: "word_count (?buf @ p @ ''\<newline>\<newline>'') \<le> wordCount st + ?pw"
      using word_count_append_le[of ?buf "p @ ''\<newline>\<newline>''"] i1 wp by linarith
    have t: "wordCount st + ?pw \<le> 400 \<or> \<not> has_blank_line (trim (?buf @ p @ ''\<newline>\<newline>''))"
    proof (cases "wordCount st + ?pw \<le> 400")
      case True then show ?thesis by simp
    next
      case f: False
      then have "trim ?buf = []" using False by simp
      then have "\<forall>c \<in> set ?buf. is_space c" by (simp only: trim_empty_iff)
      then have "trim (?buf @ p @ ''\<newline>\<newline>'') = trim (p @ ''\<newline>\<newline>'')"
        by (rule trim_prepend_spaces)
      then show ?thesis using tp by simp
    qed
    show ?thesis
      using wc t i3 by (simp add: ls page_inv_def)
  qed
qed

lemma foldl_load_step_inv:
  "page_inv st \<Longrightarrow> \<forall>p \<in> set ps. \<not> has_blank_line p \<Longrightarrow> page_inv (foldl load_step st ps)"
  by (induction ps arbitrary: st) (simp_all add: load_step_inv)

lemma load_pages_budget:
  "\<forall>pg \<in> set (load_pages text). has_blank_line pg \<longrightarrow> word_count pg \<le> 400"
proof -
  let ?init = "\<lparr>pages = [], currentPageContent = [], wordCount = 0\<rparr>"
  let ?st = "foldl load_step ?init (split_re re_paragraph_break text)"
  have "page_inv ?init" by (simp add: page_inv_def word_count_def)
  then have inv: "page_inv ?st"
    by (rule foldl_load_step_inv) (rule split_re_pb_no_blank_line)
  then have "has_blank_line (trim (currentPageContent ?st)) \<longrightarrow>
               word_count (trim (currentPageContent ?st)) \<le> 400"
    by (auto simp: page_inv_def word_count_trim)
  then show ?thesis
    using inv by (simp add: load_pages_def Let_def page_inv_def)
qed


lemma group_text_snoc: "group_text (g @ [p]) = group_text g @ p @ ''\<newline>\<newline>''"
  by (simp add: group_text_def)

lemma load_step_groups:
  assumes "pages st = map (\<lambda>g. trim (group_text g)) gs" and "currentPageContent st = group_text g"
  shows "\<exists>gs' g'. concat gs' @ g' = concat gs @ g @ [p]
           \<and> pages (load_step st p) = map (\<lambda>g. trim (group_text g)) gs'
           \<and> currentPageContent (load_step st p) = group_text g'"
proof (cases "wordCount st + length (split_re re_spaces (trim p)) > 400 \<and> trim (currentPageContent st) \<noteq> []")
  case True
  then have "pages (load_step st p) = map (\<lambda>g. trim (group_text g)) (gs @ [g])"
    and "currentPageContent (load_step st p) = group_text [p]"
    using assms by (simp_all add: load_step_def Let_def group_text_def)
  moreover have "concat (gs @ [g]) @ [p] = concat gs @ g @ [p]" by simp
  ultimately show ?thesis by blast
next
  case False
  then have "pages (load_step st p) = map (\<lambda>g. trim (group_text g)) gs"
    and "currentPageContent (load_step st p) = group_text (g @ [p])"
    using assms by (auto simp add: load_step_def Let_def group_text_def)
  moreover have "concat gs @ (g @ [p]) = concat gs @ g @ [p]" by simp
  ultimately show ?thesis by blast
qed

lemma foldl_load_step_groups:
  assumes "pages st = map (\<lambda>g. trim (group_text g)) gs" and "currentPageContent st = group_text g"
  shows "\<exists>gs' g'. concat gs' @ g' = concat gs @ g @ ps
           \<and> pages (foldl load_step st ps) = map (\<lambda>g. trim (group_text g)) gs'
           \<and> currentPageContent (foldl load_step st ps) = group_text g'"
  using assms
proof (induction ps arbitrary: st gs g)
  case Nil
  then show ?case by auto
next
  case (Cons p ps)
  from load_step_groups[OF Cons.prems, of p]
  obtain gs1 g1 where 1: "concat gs1 @ g1 = concat gs @ g @ [p]"
    and 2: "pages (load_step st p) = map (\<lambda>g. trim (group_text g)) gs1"
    and 3: "currentPageContent (load_step st p) = group_text g1"
    by blast
  from Cons.IH[OF 2 3]
  obtain gs' g' where 4: "concat gs' @ g' = concat gs1 @ g1 @ ps"
    and 5: "pages (foldl load_step (load_step st p) ps) = map (\<lambda>g. trim (group_text g)) gs'"
    and 6: "currentPageContent (foldl load_step (load_step st p) ps) = group_text g'"
    by blast
  have "concat gs' @ g' = concat gs @ g @ p # ps" using 1 4 by (metis append.assoc append_Cons append_Nil)
  with 5 6 show ?case by auto
qed

lemma load_pages_groups:
  "\<exists>groups rest. concat groups @ rest = split_re re_paragraph_break text
      \<and> load_pages text = map (\<lambda>g. trim (group_text g)) groups
      \<and> trim (group_text rest) = []"
proof -
  let ?init = "\<lparr>pages = [], currentPageContent = [], wordCount = 0\<rparr>"
  let ?ps = "split_re re_paragraph_break text"
  have a: "pages ?init = map (\<lambda>g. trim (group_text g)) []" by simp
  have b: "currentPageContent ?init = group_text []" by (simp add: group_text_def)
  from foldl_load_step_groups[OF a b, of ?ps]
  obtain gs g where 1: "concat gs @ g = ?ps"
    and 2: "pages (foldl load_step ?init ?ps) = map (\<lambda>g. trim (group_text g)) gs"
    and 3: "currentPageContent (foldl load_step ?init ?ps) = group_text g"
    by auto
  show ?thesis
  proof (cases "trim (group_text g) = []")
    case True
    then have "load_pages text = map (\<lambda>g. trim (group_text g)) gs"
      by (simp add: load_pages_def Let_def 2 3)
    with 1 True show ?thesis by blast
  next
    case False
    then have "load_pages text = map (\<lambda>g. trim (group_text g)) (gs @ [g])"
      by (simp add: load_pages_def Let_def 2 3)
    moreover have "concat (gs @ [g]) @ [] = ?ps" using 1 by simp
    moreover have "trim (group_text []) = []" by (simp add: group_text_def trim_def)
    ultimately show ?thesis by blast
  qed
qed

text \<open>
  C9. Every page that holds more than one paragraph (the page text splits at a blank
  line) has at most 400 words, so only a page of a single paragraph can exceed the
  budget. The pages are made of whole paragraphs: the paragraphs of the text, in order,
  fall into consecutive groups, each page is the trimmed text of one group, and what
  is left after the last page is blank.
\<close>

theorem multi_paragraph_page_within_budget:
  "(\<forall>pg \<in> set (load_pages text).
      1 < length (split_re re_paragraph_break pg) \<longrightarrow> word_count pg \<le> 400)
   \<and> (\<exists>groups rest. concat groups @ rest = split_re re_paragraph_break text
         \<and> load_pages text = map (\<lambda>g. trim (group_text g)) groups
         \<and> trim (group_text rest) = [])"
proof (rule conjI)
  show "\<forall>pg \<in> set (load_pages text).
      1 < length (split_re re_paragraph_break pg) \<longrightarrow> word_count pg \<le> 400"
  proof (intro ballI impI)
    fix pg assume pg: "pg \<in> set (load_pages text)" and l: "1 < length (split_re re_paragraph_break pg)"
    have "has_blank_line pg"
      using l split_re_pb_single[of pg] by (cases "has_blank_line pg") simp_all
    then show "word_count pg \<le> 400" using load_pages_budget pg by blast
  qed
  show "\<exists>groups rest. concat groups @ rest = split_re re_paragraph_break text
         \<and> load_pages text = map (\<lambda>g. trim (group_text g)) groups
         \<and> trim (group_text rest) = []"
    by (rule load_pages_groups)
qed

text \<open>A text of two short paragraphs is one page of two paragraphs and five words.\<close>

theorem multi_paragraph_page_within_budget_witness:
  "load_pages ''a b\<newline>\<newline>c d e'' = [''a b\<newline>\<newline>c d e'']
   \<and> 1 < length (split_re re_paragraph_break ''a b\<newline>\<newline>c d e'')
   \<and> word_count ''a b\<newline>\<newline>c d e'' \<le> 400"
proof -
  have 1: "load_pages ''a b\<newline>\<newline>c d e'' = [''a b\<newline>\<newline>c d e'']"
    by code_simp
  have 2: "1 < length (split_re re_paragraph_break ''a b\<newline>\<newline>c d e'')"
    by code_simp
  have 3: "''a b\<newline>\<newline>c d e'' \<in> set (load_pages ''a b\<newline>\<newline>c d e'')"
    by (simp only: 1) simp
  from multi_paragraph_page_within_budget[of "''a b\<newline>\<newline>c d e''", THEN conjunct1, rule_format, OF 3 2]
  have "word_count ''a b\<newline>\<newline>c d e'' \<le> 400" .
  with 1 2 show ?thesis by blast
qed

section \<open>Properties of the normalizer\<close>

lemma normalize_markup_intro:
  "normalize_markup ''<h1>Intro</h1><p>Hello world.</p><p>Bye.</p>'' =
     ''=== Intro ===\<newline>\<newline>Hello world.\<newline>\<newline>Bye.''"
  by code_simp


text \<open>
  C3. The markup \<open><h1>Intro</h1><p>Hello world.</p><p>Bye.</p>\<close> normalizes to the
  banner \<open>=== Intro ===\<close>, a blank line, \<open>Hello world.\<close>, a blank line and \<open>Bye.\<close>, with
  no tag left.
\<close>

theorem normalize_markup_scenario:
  "normalize_markup ''<h1>Intro</h1><p>Hello world.</p><p>Bye.</p>'' =
     ''=== Intro ===\<newline>\<newline>Hello world.\<newline>\<newline>Bye.''"
  by (rule normalize_markup_intro)

subsection \<open>The white-space clean-up in closed form\<close>

lemma nl_not_blank [simp]: "\<not> is_blank nl"
  by (simp add: is_blank_def)

lemma nopair_Cons: "nopair Q (x # s) = ((s \<noteq> [] \<longrightarrow> \<not> Q x (hd s)) \<and> nopair Q s)"
  by (cases s) simp_all



lemma squeeze_blanks_True_eq: "xs = [] \<or> \<not> is_blank (hd xs) \<Longrightarrow> squeeze_blanks True xs = squeeze_blanks False xs"
  by (cases xs) auto

lemma squeeze_blanks_notab: "notab (squeeze_blanks r s)"
  by (induction s arbitrary: r) (auto simp: notab_def is_blank_def)

lemma squeeze_blanks_out: "nopair blank_blank (squeeze_blanks r s) \<and> (r \<and> squeeze_blanks r s \<noteq> [] \<longrightarrow> \<not> is_blank (hd (squeeze_blanks r s)))"
  by (induction s arbitrary: r) (auto simp: nopair_Cons blank_blank_def)

lemma squeeze_blanks_fix: "notab s \<Longrightarrow> nopair blank_blank s \<Longrightarrow> squeeze_blanks False s = s"
proof (induction s)
  case Nil then show ?case by simp
next
  case (Cons x xs)
  then have ih: "squeeze_blanks False xs = xs" by (simp add: notab_def nopair_Cons)
  show ?case
  proof (cases "is_blank x")
    case True
    then have x: "x = CHR '' ''" using Cons.prems(1) by (auto simp: is_blank_def notab_def)
    have "xs = [] \<or> \<not> is_blank (hd xs)" using Cons.prems(2) True by (auto simp: nopair_Cons blank_blank_def)
    then have "squeeze_blanks True xs = xs" using ih by (simp add: squeeze_blanks_True_eq)
    then show ?thesis using True x by simp
  next
    case False then show ?thesis using ih by simp
  qed
qed



lemma strip_after_nl_True_eq: "xs = [] \<or> \<not> is_blank (hd xs) \<Longrightarrow> strip_after_nl True xs = strip_after_nl False xs"
  by (cases xs) auto

lemma strip_after_nl_set: "set (strip_after_nl d s) \<subseteq> set s"
  by (induction s arbitrary: d) auto

lemma strip_after_nl_hd: "s \<noteq> [] \<Longrightarrow> strip_after_nl False s \<noteq> [] \<and> hd (strip_after_nl False s) = hd s"
  by (cases s) auto

lemma strip_after_nl_BB: "nopair blank_blank s \<Longrightarrow> nopair blank_blank (strip_after_nl d s)"
proof (induction s arbitrary: d)
  case Nil then show ?case by simp
next
  case (Cons x xs)
  then have tl: "nopair blank_blank xs" by (simp add: nopair_Cons)
  show ?case
  proof (cases "d \<and> is_blank x")
    case True then show ?thesis using Cons.IH[OF tl] by simp
  next
    case False
    have "strip_after_nl (x = nl) xs \<noteq> [] \<longrightarrow> \<not> blank_blank x (hd (strip_after_nl (x = nl) xs))"
    proof (cases "x = nl")
      case True then show ?thesis by (simp add: blank_blank_def)
    next
      case f: False
      then show ?thesis using Cons.prems strip_after_nl_hd[of xs] by (cases xs) (auto simp: nopair_Cons)
    qed
    then show ?thesis using False Cons.IH[OF tl] by (auto simp: nopair_Cons)
  qed
qed

lemma strip_after_nl_out: "nopair nl_blank (strip_after_nl d s) \<and> (d \<and> strip_after_nl d s \<noteq> [] \<longrightarrow> \<not> is_blank (hd (strip_after_nl d s)))"
  by (induction s arbitrary: d) (auto simp: nopair_Cons nl_blank_def)

lemma strip_after_nl_fix: "nopair nl_blank s \<Longrightarrow> strip_after_nl False s = s"
proof (induction s)
  case Nil then show ?case by simp
next
  case (Cons x xs)
  then have ih: "strip_after_nl False xs = xs" by (simp add: nopair_Cons)
  show ?case
  proof (cases "x = nl")
    case True
    have "xs = [] \<or> \<not> is_blank (hd xs)" using Cons.prems True by (auto simp: nopair_Cons nl_blank_def)
    then have "strip_after_nl True xs = xs" using ih by (simp add: strip_after_nl_True_eq)
    then show ?thesis using True by simp
  next
    case False then show ?thesis using ih by simp
  qed
qed



lemma leads_Cons: "leads_to_nl (x # xs) = (if is_blank x then leads_to_nl xs else x = nl)"
  by (simp add: leads_to_nl_def)

lemma leads_Nil [simp]: "\<not> leads_to_nl []"
  by (simp add: leads_to_nl_def)

lemma strip_before_nl_set: "set (strip_before_nl s) \<subseteq> set s"
  by (induction s) auto

lemma strip_before_nl_hd_leads: "leads_to_nl s \<Longrightarrow> strip_before_nl s \<noteq> [] \<and> hd (strip_before_nl s) = nl"
  by (induction s) (auto simp: leads_Cons split: if_splits)

lemma strip_before_nl_hd_other: "s \<noteq> [] \<Longrightarrow> \<not> leads_to_nl s \<Longrightarrow> strip_before_nl s \<noteq> [] \<and> hd (strip_before_nl s) = hd s"
  by (cases s) (auto simp: leads_Cons split: if_splits)

lemma strip_before_nl_hd_cases: "s \<noteq> [] \<Longrightarrow> strip_before_nl s \<noteq> [] \<and> (hd (strip_before_nl s) = nl \<and> leads_to_nl s \<or> hd (strip_before_nl s) = hd s \<and> \<not> leads_to_nl s)"
  using strip_before_nl_hd_leads[of s] strip_before_nl_hd_other[of s] by blast

lemma strip_before_nl_nopair:
  assumes q: "\<And>x. \<not> Q x nl" and s: "nopair Q s"
  shows "nopair Q (strip_before_nl s)"
  using s
proof (induction s)
  case Nil then show ?case by simp
next
  case (Cons x xs)
  then have ih: "nopair Q (strip_before_nl xs)" by (simp add: nopair_Cons)
  show ?case
  proof (cases "is_blank x \<and> leads_to_nl xs")
    case True then show ?thesis using ih by simp
  next
    case False
    have "strip_before_nl xs \<noteq> [] \<longrightarrow> \<not> Q x (hd (strip_before_nl xs))"
    proof (cases "xs = []")
      case True then show ?thesis by simp
    next
      case f: False
      from strip_before_nl_hd_cases[OF f] Cons.prems f q show ?thesis by (auto simp: nopair_Cons)
    qed
    then show ?thesis using False ih by (auto simp: nopair_Cons)
  qed
qed

lemma strip_before_nl_out: "nopair blank_nl (strip_before_nl s)"
proof (induction s)
  case Nil then show ?case by simp
next
  case (Cons x xs)
  show ?case
  proof (cases "is_blank x \<and> leads_to_nl xs")
    case True then show ?thesis using Cons by simp
  next
    case False
    have "strip_before_nl xs \<noteq> [] \<longrightarrow> \<not> blank_nl x (hd (strip_before_nl xs))"
    proof (cases "xs = []")
      case True then show ?thesis by simp
    next
      case f: False
      show ?thesis
      proof (cases "is_blank x")
        case True
        then have nl: "\<not> leads_to_nl xs" using False by simp
        then have "hd (strip_before_nl xs) = hd xs" using strip_before_nl_hd_other[OF f] by simp
        moreover have "hd xs \<noteq> nl" using nl f by (cases xs) (auto simp: leads_Cons split: if_splits)
        ultimately show ?thesis by (simp add: blank_nl_def)
      next
        case False then show ?thesis by (simp add: blank_nl_def)
      qed
    qed
    then show ?thesis using False Cons by (auto simp: nopair_Cons)
  qed
qed

lemma blank_nl_no_leads: "is_blank x \<Longrightarrow> nopair blank_nl (x # xs) \<Longrightarrow> \<not> leads_to_nl xs"
proof (induction xs arbitrary: x)
  case Nil then show ?case by simp
next
  case (Cons y ys)
  from Cons.prems(2) have "\<not> blank_nl x y" and t: "nopair blank_nl (y # ys)" by simp_all
  then have y: "y \<noteq> nl" using Cons.prems(1) by (simp add: blank_nl_def)
  show ?case
  proof (cases "is_blank y")
    case True
    then show ?thesis using Cons.IH[OF True t] by (simp add: leads_Cons)
  next
    case False then show ?thesis using y by (simp add: leads_Cons)
  qed
qed

lemma strip_before_nl_fix: "nopair blank_nl s \<Longrightarrow> strip_before_nl s = s"
proof (induction s)
  case Nil then show ?case by simp
next
  case (Cons x xs)
  then have ih: "strip_before_nl xs = xs" by (simp add: nopair_Cons)
  show ?case using ih blank_nl_no_leads[of x xs] Cons.prems by auto
qed



lemma squeeze_nl_set: "set (squeeze_nl s) \<subseteq> set s"
  by (induction s) auto

lemma squeeze_nl_hd: "s \<noteq> [] \<Longrightarrow> squeeze_nl s \<noteq> [] \<and> hd (squeeze_nl s) = hd s"
proof (induction s)
  case Nil then show ?case by simp
next
  case (Cons x xs)
  show ?case
  proof (cases "x = nl \<and> starts_nl2 xs")
    case True
    then have "xs \<noteq> []" "hd xs = nl" by (auto simp: starts_nl2_def split: list.splits)
    then show ?thesis using True Cons.IH by simp
  next
    case False then show ?thesis by auto
  qed
qed

lemma squeeze_nl_nopair: "nopair Q s \<Longrightarrow> nopair Q (squeeze_nl s)"
proof (induction s)
  case Nil then show ?case by simp
next
  case (Cons x xs)
  then have ih: "nopair Q (squeeze_nl xs)" by (simp add: nopair_Cons)
  show ?case
  proof (cases "x = nl \<and> starts_nl2 xs")
    case True then show ?thesis using ih by simp
  next
    case False
    then show ?thesis using ih Cons.prems squeeze_nl_hd[of xs] by (cases "xs = []") (auto simp: nopair_Cons)
  qed
qed

lemma squeeze_nl_starts:
  assumes a: "starts_nl2 (squeeze_nl s)"
  shows "starts_nl2 s"
proof (cases s)
  case Nil then show ?thesis using a by simp
next
  case (Cons x xs)
  show ?thesis
  proof (cases "x = nl \<and> starts_nl2 xs")
    case True then show ?thesis by (auto simp: Cons starts_nl2_def split: list.splits)
  next
    case False
    then have g: "squeeze_nl s = x # squeeze_nl xs" by (auto simp: Cons)
    then have 1: "x = nl" and 2: "squeeze_nl xs \<noteq> []" and 3: "hd (squeeze_nl xs) = nl"
      using a by (auto simp: starts_nl2_def split: list.splits)
    from 2 have 4: "xs \<noteq> []" by auto
    then have "hd xs = nl" using squeeze_nl_hd[of xs] 3 by simp
    then show ?thesis using 1 4 by (cases xs) (auto simp: Cons starts_nl2_def)
  qed
qed

lemma squeeze_nl_out: "nonl3 (squeeze_nl s)"
proof (induction s)
  case Nil then show ?case by simp
next
  case (Cons x xs)
  show ?case
  proof (cases "x = nl \<and> starts_nl2 xs")
    case True then show ?thesis using Cons by simp
  next
    case False
    then show ?thesis using Cons squeeze_nl_starts[of xs] by auto
  qed
qed

lemma squeeze_nl_fix: "nonl3 s \<Longrightarrow> squeeze_nl s = s"
  by (induction s) auto

lemma squeeze_blanks_True_drop: "squeeze_blanks True s = squeeze_blanks False (dropWhile is_blank s)"
  by (induction s) auto

lemma strip_after_nl_True_drop: "strip_after_nl True s = strip_after_nl False (dropWhile is_blank s)"
  by (induction s) auto

lemma strip_before_nl_run: "dropWhile is_blank xs = nl # ys \<Longrightarrow> strip_before_nl xs = nl # strip_before_nl ys"
proof (induction xs)
  case Nil then show ?case by simp
next
  case (Cons x xs)
  show ?case
  proof (cases "is_blank x")
    case True
    then have "leads_to_nl xs" using Cons.prems by (simp add: leads_to_nl_def)
    then show ?thesis using True Cons by simp
  next
    case False
    then show ?thesis using Cons.prems by simp
  qed
qed

lemma squeeze_nl_run: "squeeze_nl (nl # nl # zs) = nl # nl # squeeze_nl (dropWhile (\<lambda>z. z = nl) zs)"
proof (induction zs)
  case Nil then show ?case by (simp add: starts_nl2_def)
next
  case (Cons z zs)
  then show ?case by (cases "z = nl") (auto simp add: starts_nl2_def split: list.splits)
qed



lemma nopair_append: "nopair Q (u @ v) \<Longrightarrow> nopair Q u \<and> nopair Q v"
proof (induction u)
  case Nil then show ?case by simp
next
  case (Cons x u)
  then show ?case by (cases u) (auto simp: nopair_Cons)
qed

lemma starts_nl2_append: "starts_nl2 u \<Longrightarrow> starts_nl2 (u @ v)"
  by (auto simp: starts_nl2_def split: list.splits)

lemma nonl3_append: "nonl3 (u @ v) \<Longrightarrow> nonl3 u \<and> nonl3 v"
  by (induction u) (auto simp: starts_nl2_append)

lemma trim_infix: "\<exists>u v. s = u @ trim s @ v"
proof -
  let ?d = "dropWhile is_space s"
  have "?d = trim s @ rev (takeWhile is_space (rev ?d))"
    using strip_right[of ?d is_space] by (simp add: trim_def)
  then have "s = takeWhile is_space s @ trim s @ rev (takeWhile is_space (rev ?d))"
    by (metis takeWhile_dropWhile_id)
  then show ?thesis by blast
qed

lemma trim_nopair: "nopair Q s \<Longrightarrow> nopair Q (trim s)"
proof -
  assume a: "nopair Q s"
  obtain u v where s: "s = u @ trim s @ v" using trim_infix by blast
  from a have "nopair Q (u @ trim s @ v)" using s by simp
  then show ?thesis using nopair_append by blast
qed

lemma trim_nonl3: "nonl3 s \<Longrightarrow> nonl3 (trim s)"
proof -
  assume a: "nonl3 s"
  obtain u v where s: "s = u @ trim s @ v" using trim_infix by blast
  from a have "nonl3 (u @ trim s @ v)" using s by simp
  then show ?thesis using nonl3_append by blast
qed

lemma trim_set: "set (trim s) \<subseteq> set s"
proof -
  obtain u v where s: "s = u @ trim s @ v" using trim_infix by blast
  have "set (trim s) \<subseteq> set (u @ trim s @ v)" by auto
  then show ?thesis using s by simp
qed

lemma trim_idem: "trim (trim s) = trim s"
proof -
  let ?t = "dropWhile is_space s"
  let ?u = "rev (dropWhile is_space (rev ?t))"
  have u: "trim s = ?u" by (simp add: trim_def)
  have t: "?t = ?u @ rev (takeWhile is_space (rev ?t))" by (rule strip_right)
  have "dropWhile is_space ?u = ?u"
  proof (cases "?u = []")
    case True then show ?thesis by (metis dropWhile.simps(1))
  next
    case False
    then have "hd ?t = hd ?u" using t by (metis hd_append2)
    moreover have "\<not> is_space (hd ?t)"
    proof (rule hd_dropWhile)
      show "?t \<noteq> []"
      proof
        assume e: "?t = []"
        have "rev (dropWhile is_space (rev [])) = ([]::string)" by simp
        then have "?u = []" by (simp only: e)
        with False show False by simp
      qed
    qed
    ultimately have "\<not> is_space (hd ?u)" by simp
    then show ?thesis using False by (cases ?u) simp_all
  qed
  then have "trim ?u = rev (dropWhile is_space (rev ?u))" by (simp add: trim_def)
  also have "\<dots> = ?u" by simp
  finally show ?thesis by (simp add: u)
qed

lemma notab_sub: "set t \<subseteq> set s \<Longrightarrow> notab s \<Longrightarrow> notab t"
  by (auto simp: notab_def)

lemma not_BB_nl: "\<not> blank_blank x nl" by (simp add: blank_blank_def)
lemma not_NB_nl: "\<not> nl_blank x nl" by (simp add: nl_blank_def)

lemma tidy_markup_idem: "tidy_markup (tidy_markup s) = tidy_markup s"
proof -
  let ?s1 = "squeeze_blanks False s" let ?s2 = "strip_after_nl False ?s1" let ?s3 = "strip_before_nl ?s2" let ?s4 = "squeeze_nl ?s3"
  let ?u = "trim ?s4"
  have t1: "notab ?s1" by (rule squeeze_blanks_notab)
  have t2: "notab ?s2" by (rule notab_sub[OF strip_after_nl_set t1])
  have t3: "notab ?s3" by (rule notab_sub[OF strip_before_nl_set t2])
  have t4: "notab ?s4" by (rule notab_sub[OF squeeze_nl_set t3])
  have t5: "notab ?u" by (rule notab_sub[OF trim_set t4])
  have b1: "nopair blank_blank ?s1" using squeeze_blanks_out[of False s] by simp
  have b2: "nopair blank_blank ?s2" by (rule strip_after_nl_BB[OF b1])
  have b3: "nopair blank_blank ?s3" by (rule strip_before_nl_nopair[OF not_BB_nl b2])
  have b4: "nopair blank_blank ?s4" by (rule squeeze_nl_nopair[OF b3])
  have b5: "nopair blank_blank ?u" by (rule trim_nopair[OF b4])
  have n2: "nopair nl_blank ?s2" using strip_after_nl_out[of False ?s1] by simp
  have n3: "nopair nl_blank ?s3" by (rule strip_before_nl_nopair[OF not_NB_nl n2])
  have n4: "nopair nl_blank ?s4" by (rule squeeze_nl_nopair[OF n3])
  have n5: "nopair nl_blank ?u" by (rule trim_nopair[OF n4])
  have m3: "nopair blank_nl ?s3" by (rule strip_before_nl_out)
  have m4: "nopair blank_nl ?s4" by (rule squeeze_nl_nopair[OF m3])
  have m5: "nopair blank_nl ?u" by (rule trim_nopair[OF m4])
  have l4: "nonl3 ?s4" by (rule squeeze_nl_out)
  have l5: "nonl3 ?u" by (rule trim_nonl3[OF l4])
  have "tidy_markup ?u = trim (squeeze_nl (strip_before_nl (strip_after_nl False (squeeze_blanks False ?u))))" by (simp add: tidy_markup_def)
  also have "\<dots> = trim ?u"
    by (simp only: squeeze_blanks_fix[OF t5 b5] strip_after_nl_fix[OF n5] strip_before_nl_fix[OF m5] squeeze_nl_fix[OF l5])
  also have "\<dots> = ?u" by (rule trim_idem)
  finally show ?thesis by (simp add: tidy_markup_def)
qed

lemma tidy_plain_idem: "tidy_plain (tidy_plain s) = tidy_plain s"
proof -
  let ?s1 = "squeeze_blanks False s" let ?s4 = "squeeze_nl ?s1"
  let ?u = "trim ?s4"
  have t1: "notab ?s1" by (rule squeeze_blanks_notab)
  have t4: "notab ?s4" by (rule notab_sub[OF squeeze_nl_set t1])
  have t5: "notab ?u" by (rule notab_sub[OF trim_set t4])
  have b1: "nopair blank_blank ?s1" using squeeze_blanks_out[of False s] by simp
  have b4: "nopair blank_blank ?s4" by (rule squeeze_nl_nopair[OF b1])
  have b5: "nopair blank_blank ?u" by (rule trim_nopair[OF b4])
  have l4: "nonl3 ?s4" by (rule squeeze_nl_out)
  have l5: "nonl3 ?u" by (rule trim_nonl3[OF l4])
  have "tidy_plain ?u = trim (squeeze_nl (squeeze_blanks False ?u))" by (simp add: tidy_plain_def)
  also have "\<dots> = trim ?u"
    by (simp only: squeeze_blanks_fix[OF t5 b5] squeeze_nl_fix[OF l5])
  also have "\<dots> = ?u" by (rule trim_idem)
  finally show ?thesis by (simp add: tidy_plain_def)
qed

subsection \<open>The replacements of the clean-up are the closed forms\<close>

lemma replace_from_jump:
  "skip \<le> length a \<Longrightarrow>
   replace_from r rep b a skip = replace_from r rep (rev (take skip a) @ b) (drop skip a) 0"
proof (induction a arbitrary: skip b)
  case Nil then show ?case by simp
next
  case (Cons x xs)
  show ?case
  proof (cases skip)
    case 0 then show ?thesis by simp
  next
    case (Suc k)
    then have k: "k \<le> length xs" using Cons.prems by simp
    show ?thesis using Cons.IH[OF k, of "x # b"] by (simp add: Suc)
  qed
qed

lemma replace_step:
  assumes m: "matches r (b, x # xs, None) = (b', drop k xs, c') # rest" and k: "k \<le> length xs"
  shows "replace_from r rep b (x # xs) 0 =
           expand rep c' @ replace_from r rep (rev (take k xs) @ x # b) (drop k xs) 0"
proof -
  have l: "length (drop k xs) \<le> length xs" by simp
  have "length xs - length (drop k xs) = k" using k by simp
  then have "replace_from r rep b (x # xs) 0 = expand rep c' @ replace_from r rep (x # b) xs k"
    using replace_from_match[OF m l, of rep] by simp
  then show ?thesis using replace_from_jump[OF k, of r rep "x # b"] by simp
qed

lemma run_states_drop:
  "run_states P b a c =
     (rev (takeWhile P a) @ b, drop (length (takeWhile P a)) a, c) # tl (run_states P b a c)"
  using run_states_Cons[of P b a c] by (simp add: dropWhile_eq_drop)

lemma blank_is_blank: "blank = Atom is_blank"
proof -
  have "(\<lambda>x. x = CHR '' '' \<or> x = CHR 0x09) = is_blank" by (rule ext) (simp add: is_blank_def)
  then show ?thesis by (simp add: blank_def)
qed

lemma blanks_match:
  "matches re_blanks (b, a, c) =
     (case a of [] \<Rightarrow> [] | x # xs \<Rightarrow> if is_blank x then run_states is_blank (x # b) xs c else [])"
  by (simp add: re_blanks_def blank_is_blank matches_plus_atom)

lemma replace_blanks: "replace_from re_blanks [Txt '' ''] b a 0 = squeeze_blanks False a"
proof (induction a arbitrary: b rule: length_induct)
  case (1 a)
  show ?case
  proof (cases a)
    case Nil then show ?thesis by (simp add: blanks_match)
  next
    case (Cons x xs)
    show ?thesis
    proof (cases "is_blank x")
      case True
      let ?k = "length (takeWhile is_blank xs)"
      have m: "matches re_blanks (b, x # xs, None) =
          (rev (takeWhile is_blank xs) @ x # b, drop ?k xs, None) # tl (run_states is_blank (x # b) xs None)"
        using True by (simp add: blanks_match run_states_drop[symmetric])
      have k: "?k \<le> length xs" by (rule length_takeWhile_le)
      have "length (drop ?k xs) < length a" by (simp add: Cons)
      then have ih: "replace_from re_blanks [Txt '' ''] (rev (take ?k xs) @ x # b) (drop ?k xs) 0
                      = squeeze_blanks False (drop ?k xs)"
        using 1 by blast
      show ?thesis
        using True by (simp add: Cons replace_step[OF m k] ih squeeze_blanks_True_drop dropWhile_eq_drop
            del: replace_from.simps)
    next
      case False
      then have m: "matches re_blanks (b, x # xs, None) = []" by (simp add: blanks_match)
      have "replace_from re_blanks [Txt '' ''] (x # b) xs 0 = squeeze_blanks False xs"
        using 1 by (simp add: Cons)
      then show ?thesis using False by (simp add: Cons replace_from_nomatch[OF m] del: replace_from.simps)
    qed
  qed
qed

lemma nl_blanks_match:
  "matches re_nl_blanks (b, a, c) =
     (case a of
        x # y # ys \<Rightarrow> if x = nl \<and> is_blank y then run_states is_blank (y # x # b) ys c else []
      | _ \<Rightarrow> [])"
  by (auto simp: re_nl_blanks_def seq_simps chr_def blank_is_blank matches_plus_atom matches_eps_fun
        concat_map_single split: list.splits)

lemma replace_nl_blanks: "replace_from re_nl_blanks [Txt ''\<newline>''] b a 0 = strip_after_nl False a"
proof (induction a arbitrary: b rule: length_induct)
  case (1 a)
  show ?case
  proof (cases a)
    case Nil then show ?thesis by (simp add: nl_blanks_match)
  next
    case (Cons x xs)
    show ?thesis
    proof (cases "x = nl \<and> xs \<noteq> [] \<and> is_blank (hd xs)")
      case True
      then obtain y ys where xs: "xs = y # ys" and y: "is_blank y" and x: "x = nl"
        by (cases xs) auto
      let ?k = "Suc (length (takeWhile is_blank ys))"
      have d: "drop ?k xs = drop (length (takeWhile is_blank ys)) ys" by (simp add: xs)
      have m: "matches re_nl_blanks (b, x # xs, None) =
          (rev (takeWhile is_blank ys) @ y # x # b, drop ?k xs, None)
            # tl (run_states is_blank (y # x # b) ys None)"
        using x y by (simp only: d) (simp add: nl_blanks_match xs run_states_drop[symmetric])
      have k: "?k \<le> length xs" using length_takeWhile_le[of is_blank ys] by (simp add: xs)
      have "length (drop ?k xs) < length a" by (simp add: Cons)
      then have ih: "replace_from re_nl_blanks [Txt ''\<newline>''] (rev (take ?k xs) @ x # b) (drop ?k xs) 0
                      = strip_after_nl False (drop ?k xs)"
        using 1 by blast
      have g: "strip_after_nl False (x # xs) = nl # strip_after_nl False (drop ?k xs)"
        using x y by (simp only: d) (simp add: xs strip_after_nl_True_drop dropWhile_eq_drop)
      have "replace_from re_nl_blanks [Txt ''\<newline>''] b (x # xs) 0 =
              expand [Txt ''\<newline>''] None
                @ replace_from re_nl_blanks [Txt ''\<newline>''] (rev (take ?k xs) @ x # b) (drop ?k xs) 0"
        by (rule replace_step[OF m k])
      also have "\<dots> = nl # strip_after_nl False (drop ?k xs)" by (simp only: ih) simp
      finally show ?thesis by (simp only: Cons g)
    next
      case False
      then have m: "matches re_nl_blanks (b, x # xs, None) = []"
        by (auto simp: nl_blanks_match split: list.splits)
      have ih: "replace_from re_nl_blanks [Txt ''\<newline>''] (x # b) xs 0 = strip_after_nl False xs"
        using 1 by (simp add: Cons)
      have "strip_after_nl (x = nl) xs = strip_after_nl False xs"
        using False by (cases "x = nl") (auto simp: strip_after_nl_True_eq)
      then show ?thesis using ih by (simp add: Cons replace_from_nomatch[OF m] del: replace_from.simps)
    qed
  qed
qed

lemma concat_atom_run:
  assumes "\<And>x. P x \<Longrightarrow> \<not> Q x"
  shows "concat (map (matches (Atom Q)) (run_states P b a c)) =
           (if dropWhile P a \<noteq> [] \<and> Q (hd (dropWhile P a))
            then [(hd (dropWhile P a) # rev (takeWhile P a) @ b, tl (dropWhile P a), c)] else [])"
proof (induction a arbitrary: b)
  case Nil
  then show ?case by (simp add: run_states_stop)
next
  case (Cons x xs)
  show ?case
  proof (cases "P x")
    case True
    have "concat (map (matches (Atom Q)) (run_states P b (x # xs) c)) =
            concat (map (matches (Atom Q)) (run_states P (x # b) xs c)) @ matches (Atom Q) (b, x # xs, c)"
      by (simp add: run_states_step[of P x, OF True])
    also have "matches (Atom Q) (b, x # xs, c) = []" using assms[OF True] by simp
    finally show ?thesis using True by (simp only: Cons) simp
  next
    case False
    then show ?thesis by (simp add: run_states_stop)
  qed
qed

lemma blanks_nl_match:
  "matches re_blanks_nl (b, x # xs, c) =
     (if is_blank x \<and> leads_to_nl xs
      then [(nl # rev (takeWhile is_blank xs) @ x # b, tl (dropWhile is_blank xs), c)] else [])"
proof -
  have q: "\<And>x. is_blank x \<Longrightarrow> \<not> x = nl" by auto
  have e: "matches (Seq (Atom (\<lambda>x. x = nl)) Eps) = matches (Atom (\<lambda>x. x = nl))"
    by (rule ext) (rule matches_seq_eps)
  have l: "leads_to_nl xs = (dropWhile is_blank xs \<noteq> [] \<and> hd (dropWhile is_blank xs) = nl)"
    by (cases "dropWhile is_blank xs") (simp_all add: leads_to_nl_def del: dropWhile_eq_Nil_conv)
  have 1: "matches re_blanks_nl (b, x # xs, c) =
             concat (map (matches (Atom (\<lambda>x. x = nl))) (matches (plus (Atom is_blank)) (b, x # xs, c)))"
    by (simp only: re_blanks_nl_def seq_simps chr_def blank_is_blank matches.simps e)
  show ?thesis
  proof (cases "is_blank x")
    case True
    have 2: "matches (plus (Atom is_blank)) (b, x # xs, c) = run_states is_blank (x # b) xs c"
      using True by (simp add: matches_plus_atom)
    have "matches re_blanks_nl (b, x # xs, c) =
            concat (map (matches (Atom (\<lambda>x. x = nl))) (run_states is_blank (x # b) xs c))"
      by (simp only: 1 2)
    also have "\<dots> = (if dropWhile is_blank xs \<noteq> [] \<and> hd (dropWhile is_blank xs) = nl
            then [(hd (dropWhile is_blank xs) # rev (takeWhile is_blank xs) @ x # b,
                   tl (dropWhile is_blank xs), c)] else [])"
      by (rule concat_atom_run) (rule q)
    finally show ?thesis using True by (simp add: l del: dropWhile_eq_Nil_conv)
  next
    case False
    have 2: "matches (plus (Atom is_blank)) (b, x # xs, c) = []"
      using False by (simp add: matches_plus_atom)
    show ?thesis unfolding 1 2 using False by simp
  qed
qed

lemma blanks_nl_match_Nil: "matches re_blanks_nl (b, [], c) = []"
  by (simp add: re_blanks_nl_def seq_simps blank_is_blank matches_plus_atom)

lemma replace_blanks_nl: "replace_from re_blanks_nl [Txt ''\<newline>''] b a 0 = strip_before_nl a"
proof (induction a arbitrary: b rule: length_induct)
  case (1 a)
  show ?case
  proof (cases a)
    case Nil then show ?thesis by (simp add: blanks_nl_match_Nil)
  next
    case (Cons x xs)
    show ?thesis
    proof (cases "is_blank x \<and> leads_to_nl xs")
      case True
      then obtain ys where dw: "dropWhile is_blank xs = nl # ys"
        by (auto simp: leads_to_nl_def split: list.splits)
      let ?k = "Suc (length (takeWhile is_blank xs))"
      have "drop (length (takeWhile is_blank xs)) xs = nl # ys"
        using dw by (simp add: dropWhile_eq_drop)
      then have d: "drop ?k xs = ys"
        by (metis drop_Suc drop_drop list.sel(3) plus_1_eq_Suc tl_drop)
      have m: "matches re_blanks_nl (b, x # xs, None) =
                 (nl # rev (takeWhile is_blank xs) @ x # b, drop ?k xs, None) # []"
        using True by (simp only: d) (simp add: blanks_nl_match dw)
      have "length xs = length (takeWhile is_blank xs) + length (nl # ys)"
        using dw by (metis length_append takeWhile_dropWhile_id)
      then have k: "?k \<le> length xs" by simp
      have "length (drop ?k xs) < length a" by (simp add: Cons)
      then have ih: "replace_from re_blanks_nl [Txt ''\<newline>''] (rev (take ?k xs) @ x # b) (drop ?k xs) 0
                      = strip_before_nl (drop ?k xs)"
        using 1 by blast
      have g: "strip_before_nl (x # xs) = nl # strip_before_nl (drop ?k xs)" using True strip_before_nl_run[OF dw] by (simp only: d) simp
      have "replace_from re_blanks_nl [Txt ''\<newline>''] b (x # xs) 0 =
              expand [Txt ''\<newline>''] None
                @ replace_from re_blanks_nl [Txt ''\<newline>''] (rev (take ?k xs) @ x # b) (drop ?k xs) 0"
        by (rule replace_step[OF m k])
      also have "\<dots> = nl # strip_before_nl (drop ?k xs)" by (simp only: ih) simp
      finally show ?thesis by (simp only: Cons g)
    next
      case False
      then have m: "matches re_blanks_nl (b, x # xs, None) = []"
        by (simp add: blanks_nl_match)
      have ih: "replace_from re_blanks_nl [Txt ''\<newline>''] (x # b) xs 0 = strip_before_nl xs"
        using 1 by (simp add: Cons)
      show ?thesis using False ih by (simp add: Cons replace_from_nomatch[OF m] del: replace_from.simps)
    qed
  qed
qed

lemma nl3_match:
  "matches re_nl3 (b, a, c) =
     (case a of
        x # y # z # zs \<Rightarrow>
          if x = nl \<and> y = nl \<and> z = nl then run_states (\<lambda>u. u = nl) (z # y # x # b) zs c else []
      | _ \<Rightarrow> [])"
  by (auto simp: re_nl3_def at_least_def numeral_3_eq_3 seq_simps chr_def matches_eps_fun
        concat_map_single iter_greedy_atom[OF length_takeWhile_le] split: list.splits)

lemma replace_nl3: "replace_from re_nl3 [Txt ''\<newline>\<newline>''] b a 0 = squeeze_nl a"
proof (induction a arbitrary: b rule: length_induct)
  case (1 a)
  show ?case
  proof (cases a)
    case Nil then show ?thesis by (simp add: nl3_match)
  next
    case (Cons x xs)
    show ?thesis
    proof (cases "x = nl \<and> starts_nl2 xs")
      case True
      then obtain zs where xs: "xs = nl # nl # zs" and x: "x = nl"
        by (auto simp: starts_nl2_def split: list.splits)
      let ?k = "Suc (Suc (length (takeWhile (\<lambda>u. u = nl) zs)))"
      have d: "drop ?k xs = drop (length (takeWhile (\<lambda>u. u = nl) zs)) zs" by (simp add: xs)
      have m: "matches re_nl3 (b, x # xs, None) =
          (rev (takeWhile (\<lambda>u. u = nl) zs) @ nl # nl # x # b, drop ?k xs, None)
            # tl (run_states (\<lambda>u. u = nl) (nl # nl # x # b) zs None)"
        using x by (simp only: d) (simp add: nl3_match xs run_states_drop[symmetric])
      have k: "?k \<le> length xs" using length_takeWhile_le[of "\<lambda>u. u = nl" zs] by (simp add: xs)
      have "length (drop ?k xs) < length a" by (simp add: Cons)
      then have ih: "replace_from re_nl3 [Txt ''\<newline>\<newline>''] (rev (take ?k xs) @ x # b) (drop ?k xs) 0
                      = squeeze_nl (drop ?k xs)"
        using 1 by blast
      have g: "squeeze_nl (x # xs) = nl # nl # squeeze_nl (drop ?k xs)"
        using x squeeze_nl_run[of zs] by (simp only: d) (simp add: xs starts_nl2_def dropWhile_eq_drop)
      have "replace_from re_nl3 [Txt ''\<newline>\<newline>''] b (x # xs) 0 =
              expand [Txt ''\<newline>\<newline>''] None
                @ replace_from re_nl3 [Txt ''\<newline>\<newline>''] (rev (take ?k xs) @ x # b) (drop ?k xs) 0"
        by (rule replace_step[OF m k])
      also have "\<dots> = nl # nl # squeeze_nl (drop ?k xs)" by (simp only: ih) simp
      finally show ?thesis by (simp only: Cons g)
    next
      case False
      then have m: "matches re_nl3 (b, x # xs, None) = []"
        by (auto simp: nl3_match starts_nl2_def split: list.splits)
      have ih: "replace_from re_nl3 [Txt ''\<newline>\<newline>''] (x # b) xs 0 = squeeze_nl xs"
        using 1 by (simp add: Cons)
      show ?thesis using False ih by (simp add: Cons replace_from_nomatch[OF m] del: replace_from.simps)
    qed
  qed
qed

lemma whitespace_markup:
  "trim (replace_all re_nl3 [Txt ''\<newline>\<newline>'']
     (replace_all re_blanks_nl [Txt ''\<newline>'']
     (replace_all re_nl_blanks [Txt ''\<newline>'']
     (replace_all re_blanks [Txt '' ''] s)))) = tidy_markup s"
  by (simp add: replace_all_def replace_blanks replace_nl_blanks replace_blanks_nl replace_nl3 tidy_markup_def)

lemma whitespace_plain:
  "trim (replace_all re_nl3 [Txt ''\<newline>\<newline>''] (replace_all re_blanks [Txt '' ''] s)) = tidy_plain s"
  by (simp add: replace_all_def replace_blanks replace_nl3 tidy_plain_def)

subsection \<open>Texts without a match, characters of the result\<close>

lemma not_finds_replace: "\<not> finds r b a \<Longrightarrow> replace_from r rep b a 0 = a"
  by (induction a arbitrary: b) simp_all

lemma not_found_replace: "\<not> found_in r s \<Longrightarrow> replace_all r rep s = s"
  by (simp add: found_in_def replace_all_def not_finds_replace)



lemma iter_greedy_chars:
  assumes f: "\<And>st st'. st' \<in> set (f st) \<Longrightarrow> state_chars st' \<subseteq> state_chars st"
  shows "st' \<in> set (iter_greedy f n st) \<Longrightarrow> state_chars st' \<subseteq> state_chars st"
proof (induction n arbitrary: st st')
  case 0 then show ?case by simp
next
  case (Suc n)
  from Suc.prems consider (stop) "st' = st"
    | (go) st1 where "st1 \<in> set (f st)" "st' \<in> set (iter_greedy f n st1)"
    by (auto split: if_splits)
  then show ?case
  proof cases
    case stop then show ?thesis by simp
  next
    case go
    then show ?thesis using f[OF go(1)] Suc.IH[OF go(2)] by blast
  qed
qed

lemma iter_lazy_chars:
  assumes f: "\<And>st st'. st' \<in> set (f st) \<Longrightarrow> state_chars st' \<subseteq> state_chars st"
  shows "st' \<in> set (iter_lazy f n st) \<Longrightarrow> state_chars st' \<subseteq> state_chars st"
proof (induction n arbitrary: st st')
  case 0 then show ?case by simp
next
  case (Suc n)
  from Suc.prems consider (stop) "st' = st"
    | (go) st1 where "st1 \<in> set (f st)" "st' \<in> set (iter_lazy f n st1)"
    by (auto split: if_splits)
  then show ?case
  proof cases
    case stop then show ?thesis by simp
  next
    case go
    then show ?thesis using f[OF go(1)] Suc.IH[OF go(2)] by blast
  qed
qed

lemma matches_chars:
  "st' \<in> set (matches r st) \<Longrightarrow> state_chars st' \<subseteq> state_chars st"
proof (induction r arbitrary: st st')
  case (Atom P)
  obtain b a c where st: "st = (b, a, c)" by (cases st) auto
  show ?case using Atom by (cases a) (auto simp: st split: if_splits)
next
  case Eps then show ?case by simp
next
  case (Seq r1 r2)
  from Seq.prems obtain st1 where "st1 \<in> set (matches r1 st)" "st' \<in> set (matches r2 st1)"
    by auto
  then show ?case using Seq.IH by blast
next
  case (Alt r1 r2)
  from Alt.prems have "st' \<in> set (matches r1 st) \<or> st' \<in> set (matches r2 st)" by simp
  then show ?case using Alt.IH by blast
next
  case (Star r)
  show ?case using iter_greedy_chars[of "matches r", OF Star.IH] Star.prems by simp
next
  case (Lazy r)
  show ?case using iter_lazy_chars[of "matches r", OF Lazy.IH] Lazy.prems by simp
next
  case (NotAhead r) then show ?case by (auto split: if_splits)
next
  case (Group r)
  obtain b a c where st: "st = (b, a, c)" by (cases st) auto
  from Group.prems obtain b' a' c' where m: "(b', a', c') \<in> set (matches r (b, a, c))"
    and s': "st' = (b', a', Some (rev (take (length b' - length b) b')))"
    by (auto simp: st)
  have "set (take (length b' - length b) b') \<subseteq> set b'" by (rule set_take_subset)
  then have "state_chars st' \<subseteq> set b' \<union> set a'" by (auto simp: s')
  also have "\<dots> \<subseteq> state_chars (b', a', c')" by auto
  also have "\<dots> \<subseteq> state_chars st" using Group.IH[OF m] by (simp add: st)
  finally show ?case .
next
  case WordB
  obtain b a c where st: "st = (b, a, c)" by (cases st) auto
  show ?case using WordB by (auto simp: st split: if_splits)
next
  case LineStart
  obtain b a c where st: "st = (b, a, c)" by (cases st) auto
  show ?case using LineStart by (auto simp: st split: if_splits list.splits)
next
  case LineEnd
  obtain b a c where st: "st = (b, a, c)" by (cases st) auto
  show ?case using LineEnd by (auto simp: st split: if_splits list.splits)
qed

lemma expand_chars:
  "set (expand rep c) \<subseteq> \<Union> (piece_chars ` set rep) \<union> (case c of None \<Rightarrow> {} | Some g \<Rightarrow> set g)"
proof (induction rep)
  case Nil then show ?case by simp
next
  case (Cons p rep)
  then show ?case by (cases p) (auto split: option.splits)
qed

lemma replace_from_chars:
  "set (replace_from r rep b a skip) \<subseteq> set b \<union> set a \<union> \<Union> (piece_chars ` set rep)"
proof (induction a arbitrary: b skip)
  case Nil
  show ?case
  proof (cases "matches r (b, [], None)")
    case Nil then show ?thesis by simp
  next
    case (Cons st' rest)
    obtain b' a' c' where st': "st' = (b', a', c')" by (cases st') auto
    have "state_chars st' \<subseteq> state_chars (b, [], None)"
      using matches_chars[of st' r "(b, [], None)"] by (simp add: Cons)
    then have "(case c' of None \<Rightarrow> {} | Some g \<Rightarrow> set g) \<subseteq> set b" by (auto simp: st')
    then show ?thesis using expand_chars[of rep c'] by (auto simp: Cons st')
  qed
next
  case (Cons x xs)
  show ?case
  proof (cases "0 < skip")
    case True
    then show ?thesis using Cons.IH[of "x # b" "skip - 1"] by auto
  next
    case False
    show ?thesis
    proof (cases "matches r (b, x # xs, None)")
      case Nil
      then show ?thesis using False Cons.IH[of "x # b" 0] by auto
    next
      case m: (Cons st' rest)
      obtain b' a' c' where st': "st' = (b', a', c')" by (cases st') auto
      have "state_chars st' \<subseteq> state_chars (b, x # xs, None)"
        using matches_chars[of st' r "(b, x # xs, None)"] by (simp add: m)
      then have c: "(case c' of None \<Rightarrow> {} | Some g \<Rightarrow> set g) \<subseteq> set b \<union> set (x # xs)"
        by (auto simp: st')
      have e: "set (expand rep c') \<subseteq> set b \<union> set (x # xs) \<union> \<Union> (piece_chars ` set rep)"
        using expand_chars[of rep c'] c by blast
      show ?thesis
        using False e Cons.IH[of "x # b" 0] Cons.IH[of "x # b" "length (x # xs) - length a' - 1"]
        by (auto simp: m st' Let_def)
    qed
  qed
qed

lemma replace_all_chars:
  "set (replace_all r rep s) \<subseteq> set s \<union> \<Union> (piece_chars ` set rep)"
  using replace_from_chars[of r rep "[]" s 0] by (simp add: replace_all_def)

lemma replace_first_char_absent:
  "c \<notin> set a \<Longrightarrow> replace_from (Seq (chr c) r) rep b a 0 = a"
  by (induction a arbitrary: b) (auto simp add: chr_def)

lemma replace_chr_absent:
  "c \<notin> set a \<Longrightarrow> replace_from (chr c) rep b a 0 = a"
  by (induction a arbitrary: b) (auto simp add: chr_def)

lemma replace_chr:
  "replace_from (chr c) [Txt t] b a 0 = concat (map (\<lambda>x. if x = c then t else [x]) a)"
proof (induction a arbitrary: b)
  case Nil then show ?case by (simp add: chr_def)
next
  case (Cons x xs)
  show ?case
  proof (cases "x = c")
    case True
    have m: "matches (chr c) (b, x # xs, None) = (x # b, xs, None) # []"
      using True by (simp add: chr_def)
    show ?thesis
      using replace_from_match[OF m, of "[Txt t]"] Cons[of "x # b"] True by simp
  next
    case False
    then have m: "matches (chr c) (b, x # xs, None) = []" by (simp add: chr_def)
    show ?thesis using replace_from_nomatch[OF m, of "[Txt t]"] Cons[of "x # b"] False by simp
  qed
qed

lemma cr_replaced: "cr \<notin> set (replace_all (chr cr) [Txt ''\<newline>''] s)"
  by (simp add: replace_all_def replace_chr)

lemma banner_chars: "cr \<notin> \<Union> (piece_chars ` set banner)"
  by (simp add: banner_def)

lemma squeeze_blanks_set: "set (squeeze_blanks r s) \<subseteq> insert CHR '' '' (set s)"
  by (induction s arbitrary: r) auto

lemma normalize_plain_wp:
  "normalize_plain t =
     tidy_plain (replace_all re_caps_line banner
        (replace_all re_chapter banner
        (replace_all (chr cr) [Txt ''\<newline>'']
        (replace_all (str [cr, CHR 0x0A]) [Txt ''\<newline>''] t))))"
  by (simp only: normalize_plain_def whitespace_plain)

lemma normalize_plain_no_cr: "cr \<notin> set (normalize_plain t)"
proof -
  let ?z = "replace_all (chr cr) [Txt ''\<newline>''] (replace_all (str [cr, CHR 0x0A]) [Txt ''\<newline>''] t)"
  let ?y1 = "replace_all re_chapter banner ?z"
  let ?y2 = "replace_all re_caps_line banner ?y1"
  have z: "cr \<notin> set ?z" by (rule cr_replaced)
  have y1: "cr \<notin> set ?y1" using replace_all_chars[of re_chapter banner ?z] z banner_chars by blast
  have y2: "cr \<notin> set ?y2" using replace_all_chars[of re_caps_line banner ?y1] y1 banner_chars by blast
  have "set (tidy_plain ?y2) \<subseteq> insert CHR '' '' (set ?y2)"
    unfolding tidy_plain_def using trim_set[of "squeeze_nl (squeeze_blanks False ?y2)"] squeeze_nl_set[of "squeeze_blanks False ?y2"] squeeze_blanks_set[of False ?y2]
    by blast
  then have "cr \<notin> set (tidy_plain ?y2)" using y2 by auto
  then show ?thesis unfolding normalize_plain_wp .
qed

lemma normalize_markup_wm:
  "normalize_markup t =
     tidy_markup (replace_all (str ''&apos;'') [Txt [CHR 0x27]]
     (replace_all (str ''&quot;'') [Txt [CHR 0x22]]
     (replace_all (str ''&gt;'') [Txt ''>'']
     (replace_all (str ''&lt;'') [Txt ''<'']
     (replace_all (str ''&amp;'') [Txt ''&'']
     (replace_all (str ''&nbsp;'') [Txt '' '']
     (replace_all re_tag []
     (replace_all re_br [Txt ''\<newline>'']
     (replace_all re_p_open []
     (replace_all re_p_close [Txt ''\<newline>\<newline>'']
     (replace_all re_heading banner
     (replace_all re_style []
     (replace_all re_script [] t)))))))))))))"
  by (simp only: normalize_markup_def whitespace_markup)

lemma markup_fixpoint:
  assumes "\<forall>r \<in> set markup_patterns. \<not> found_in r u"
  shows "normalize_markup u = tidy_markup u"
proof -
  have r: "\<And>r rep. r \<in> set markup_patterns \<Longrightarrow> replace_all r rep u = u"
    using assms not_found_replace by blast
  have m: "re_script \<in> set markup_patterns" "re_style \<in> set markup_patterns"
    "re_heading \<in> set markup_patterns" "re_p_close \<in> set markup_patterns"
    "re_p_open \<in> set markup_patterns" "re_br \<in> set markup_patterns" "re_tag \<in> set markup_patterns"
    "str ''&nbsp;'' \<in> set markup_patterns" "str ''&amp;'' \<in> set markup_patterns"
    "str ''&lt;'' \<in> set markup_patterns" "str ''&gt;'' \<in> set markup_patterns"
    "str ''&quot;'' \<in> set markup_patterns" "str ''&apos;'' \<in> set markup_patterns"
    by (simp_all add: markup_patterns_def)
  show ?thesis
    by (simp only: normalize_markup_wm r[OF m(1)] r[OF m(2)] r[OF m(3)] r[OF m(4)] r[OF m(5)]
        r[OF m(6)] r[OF m(7)] r[OF m(8)] r[OF m(9)] r[OF m(10)] r[OF m(11)] r[OF m(12)] r[OF m(13)])
qed

lemma plain_fixpoint:
  assumes "\<forall>r \<in> set plain_patterns. \<not> found_in r u" and "cr \<notin> set u"
  shows "normalize_plain u = tidy_plain u"
proof -
  have 1: "replace_all (str [cr, CHR 0x0A]) [Txt ''\<newline>''] u = u"
    using assms(2) by (simp add: replace_all_def str_def seq_simps replace_first_char_absent)
  have 2: "replace_all (chr cr) [Txt ''\<newline>''] u = u"
    using assms(2) by (simp add: replace_all_def replace_chr_absent)
  have 3: "replace_all re_chapter banner u = u"
    using assms(1) by (simp add: plain_patterns_def not_found_replace)
  have 4: "replace_all re_caps_line banner u = u"
    using assms(1) by (simp add: plain_patterns_def not_found_replace)
  show ?thesis by (simp only: normalize_plain_wp 1 2 3 4)
qed


text \<open>
  C2 as stated fails on both branches: the markup \<open>&amp;amp;\<close> normalizes to
  \<open>&amp;\<close>, which normalizes to \<open>&\<close>; the plain text \<open>CHAPTER I\<close> normalizes to
  its banner, in which the chapter pattern matches again.
\<close>

theorem normalize_idempotent_counterexample:
  "normalize_markup (normalize_markup ''&amp;amp;'') \<noteq> normalize_markup ''&amp;amp;''
   \<and> normalize_plain (normalize_plain ''CHAPTER I'') \<noteq> normalize_plain ''CHAPTER I''"
  by code_simp


text \<open>
  C2, as the code has it. Normalizing a normalized text again gives the same text
  whenever none of the rewriting patterns of the branch is found in the normalized
  text: no tag and no entity pattern on the markup branch, no chapter marker and no
  capitals line on the plain-text branch. The white-space clean-up of both branches
  is idempotent.
\<close>

theorem normalize_idempotent_without_patterns:
  "((\<forall>r \<in> set markup_patterns. \<not> found_in r (normalize_markup t)) \<longrightarrow>
      normalize_markup (normalize_markup t) = normalize_markup t)
   \<and> ((\<forall>r \<in> set plain_patterns. \<not> found_in r (normalize_plain t)) \<longrightarrow>
      normalize_plain (normalize_plain t) = normalize_plain t)"
proof (intro conjI impI)
  assume a: "\<forall>r \<in> set markup_patterns. \<not> found_in r (normalize_markup t)"
  obtain x where x: "normalize_markup t = tidy_markup x" using normalize_markup_wm by blast
  have "normalize_markup (normalize_markup t) = tidy_markup (normalize_markup t)"
    by (rule markup_fixpoint[OF a])
  also have "\<dots> = tidy_markup (tidy_markup x)" by (simp only: x)
  also have "\<dots> = tidy_markup x" by (rule tidy_markup_idem)
  finally show "normalize_markup (normalize_markup t) = normalize_markup t" by (simp only: x)
next
  assume a: "\<forall>r \<in> set plain_patterns. \<not> found_in r (normalize_plain t)"
  obtain x where x: "normalize_plain t = tidy_plain x" using normalize_plain_wp by blast
  have "normalize_plain (normalize_plain t) = tidy_plain (normalize_plain t)"
    by (rule plain_fixpoint[OF a normalize_plain_no_cr])
  also have "\<dots> = tidy_plain (tidy_plain x)" by (simp only: x)
  also have "\<dots> = tidy_plain x" by (rule tidy_plain_idem)
  finally show "normalize_plain (normalize_plain t) = normalize_plain t" by (simp only: x)
qed

lemma normalize_plain_hello:
  "normalize_plain ''Hello   world\<newline>\<newline>\<newline>\<newline>Bye'' = ''Hello world\<newline>\<newline>Bye''"
  by code_simp

lemma intro_clear:
  "\<not> found_in re_script ''=== Intro ===\<newline>\<newline>Hello world.\<newline>\<newline>Bye.''"
  "\<not> found_in re_style ''=== Intro ===\<newline>\<newline>Hello world.\<newline>\<newline>Bye.''"
  "\<not> found_in re_heading ''=== Intro ===\<newline>\<newline>Hello world.\<newline>\<newline>Bye.''"
  "\<not> found_in re_p_close ''=== Intro ===\<newline>\<newline>Hello world.\<newline>\<newline>Bye.''"
  "\<not> found_in re_p_open ''=== Intro ===\<newline>\<newline>Hello world.\<newline>\<newline>Bye.''"
  "\<not> found_in re_br ''=== Intro ===\<newline>\<newline>Hello world.\<newline>\<newline>Bye.''"
  "\<not> found_in re_tag ''=== Intro ===\<newline>\<newline>Hello world.\<newline>\<newline>Bye.''"
  "\<not> found_in (str ''&nbsp;'') ''=== Intro ===\<newline>\<newline>Hello world.\<newline>\<newline>Bye.''"
  "\<not> found_in (str ''&amp;'') ''=== Intro ===\<newline>\<newline>Hello world.\<newline>\<newline>Bye.''"
  "\<not> found_in (str ''&lt;'') ''=== Intro ===\<newline>\<newline>Hello world.\<newline>\<newline>Bye.''"
  "\<not> found_in (str ''&gt;'') ''=== Intro ===\<newline>\<newline>Hello world.\<newline>\<newline>Bye.''"
  "\<not> found_in (str ''&quot;'') ''=== Intro ===\<newline>\<newline>Hello world.\<newline>\<newline>Bye.''"
  "\<not> found_in (str ''&apos;'') ''=== Intro ===\<newline>\<newline>Hello world.\<newline>\<newline>Bye.''"
  by code_simp+

lemma intro_no_patterns:
  "\<forall>r \<in> set markup_patterns. \<not> found_in r ''=== Intro ===\<newline>\<newline>Hello world.\<newline>\<newline>Bye.''"
  by (simp add: markup_patterns_def intro_clear)

lemma hello_clear:
  "\<not> found_in re_chapter ''Hello world\<newline>\<newline>Bye''"
  "\<not> found_in re_caps_line ''Hello world\<newline>\<newline>Bye''"
  by code_simp+

lemma hello_no_patterns:
  "\<forall>r \<in> set plain_patterns. \<not> found_in r ''Hello world\<newline>\<newline>Bye''"
  by (simp add: plain_patterns_def hello_clear)


text \<open>The scenario of C3 and a plain text with runs of spaces and line feeds.\<close>

theorem normalize_idempotent_without_patterns_witness:
  "normalize_markup (normalize_markup ''<h1>Intro</h1><p>Hello world.</p><p>Bye.</p>'') =
     normalize_markup ''<h1>Intro</h1><p>Hello world.</p><p>Bye.</p>''
   \<and> normalize_plain (normalize_plain ''Hello   world\<newline>\<newline>\<newline>\<newline>Bye'') =
     normalize_plain ''Hello   world\<newline>\<newline>\<newline>\<newline>Bye''"
proof -
  have 1: "\<forall>r \<in> set markup_patterns.
             \<not> found_in r (normalize_markup ''<h1>Intro</h1><p>Hello world.</p><p>Bye.</p>'')"
    using intro_no_patterns by (simp only: normalize_markup_intro)
  have 2: "\<forall>r \<in> set plain_patterns.
             \<not> found_in r (normalize_plain ''Hello   world\<newline>\<newline>\<newline>\<newline>Bye'')"
    using hello_no_patterns by (simp only: normalize_plain_hello)
  from normalize_idempotent_without_patterns[of "''<h1>Intro</h1><p>Hello world.</p><p>Bye.</p>''",
      THEN conjunct1, THEN mp, OF 1]
    normalize_idempotent_without_patterns[of "''Hello   world\<newline>\<newline>\<newline>\<newline>Bye''",
      THEN conjunct2, THEN mp, OF 2]
  show ?thesis by (rule conjI)
qed

section \<open>Properties of the reading session\<close>

text \<open>
  C8. A settings update of any kind (font size, line height, theme, font family) leaves
  the page count, the page index and the content as they are, and the text shown for
  the current page is the same: the page budget of 400 words does not depend on the
  settings.
\<close>

theorem settings_update_frame:
  "totalPages (update_settings c st) = totalPages st
   \<and> currentPage (update_settings c st) = currentPage st
   \<and> content (update_settings c st) = content st
   \<and> getCurrentPageContent (update_settings c st) = getCurrentPageContent st"
  by (cases c) (simp_all add: getCurrentPageContent_def)

lemma normalize_plain_empty: "normalize_plain [] = []"
  by code_simp

lemma load_pages_empty: "load_pages [] = []"
  by code_simp

lemma empty_book_reader_fields:
  "totalPages empty_book_reader = 0" "currentPage empty_book_reader = 0"
  by (simp_all add: empty_book_reader_def processBookContent_def Let_def normalize_plain_empty
        load_pages_empty initial_reader_def)

text \<open>
  C7 as stated fails: with no page (an empty book) the index 0 is not below the page
  count after \<open>nextPage\<close>, and the slider handler stores an index out of range as it is.
\<close>

theorem page_range_counterexample:
  "\<not> in_range (handleNextPage empty_book_reader)
   \<and> \<not> in_range (slider_onChange 5 empty_book_reader)
   \<and> \<not> in_range (slider_onChange 7 (empty_book_reader\<lparr>totalPages := 3\<rparr>))"
  by (simp add: in_range_def handleNextPage_def slider_onChange_def empty_book_reader_fields)

text \<open>
  C7, as the code has it. \<open>nextPage\<close> and \<open>prevPage\<close> keep an index that is in range in
  range and never change the page count; with a page count of 0 and the index 0 they
  leave the index at 0 (which is not below the page count). The slider handler stores
  the index it is given without clamping it, so after it the index is in range exactly
  when the index given was.
\<close>

theorem page_range_preserved:
  "(in_range st \<longrightarrow> in_range (handleNextPage st) \<and> in_range (handlePrevPage st))
   \<and> totalPages (handleNextPage st) = totalPages st
   \<and> totalPages (handlePrevPage st) = totalPages st
   \<and> (totalPages st = 0 \<and> currentPage st = 0 \<longrightarrow>
        currentPage (handleNextPage st) = 0 \<and> currentPage (handlePrevPage st) = 0)
   \<and> currentPage (slider_onChange v st) = v
   \<and> totalPages (slider_onChange v st) = totalPages st
   \<and> (in_range (slider_onChange v st) \<longleftrightarrow> 0 \<le> v \<and> v < totalPages st)"
  by (auto simp: in_range_def handleNextPage_def handlePrevPage_def slider_onChange_def)

text \<open>On the last of three pages \<open>nextPage\<close> does nothing and \<open>prevPage\<close> goes to page 1.\<close>

theorem page_range_preserved_witness:
  "in_range (initial_reader\<lparr>totalPages := 3, currentPage := 2\<rparr>)
   \<and> in_range (handleNextPage (initial_reader\<lparr>totalPages := 3, currentPage := 2\<rparr>))
   \<and> currentPage (handleNextPage (initial_reader\<lparr>totalPages := 3, currentPage := 2\<rparr>)) = 2
   \<and> in_range (handlePrevPage (initial_reader\<lparr>totalPages := 3, currentPage := 2\<rparr>))
   \<and> currentPage (handlePrevPage (initial_reader\<lparr>totalPages := 3, currentPage := 2\<rparr>)) = 1"
proof -
  have h: "in_range (initial_reader\<lparr>totalPages := 3, currentPage := 2\<rparr>)"
    by (simp add: in_range_def)
  have n: "currentPage (handleNextPage (initial_reader\<lparr>totalPages := 3, currentPage := 2\<rparr>)) = 2"
    by (simp add: handleNextPage_def)
  have p: "currentPage (handlePrevPage (initial_reader\<lparr>totalPages := 3, currentPage := 2\<rparr>)) = 1"
    by (simp add: handlePrevPage_def)
  show ?thesis
    using h n p page_range_preserved[of "initial_reader\<lparr>totalPages := 3, currentPage := 2\<rparr>" 0]
    by blast
qed


section \<open>Properties of the book service\<close>
















subsection \<open>Reading progress\<close>

lemma strip_prefix_append: "strip_prefix p (p @ r) = Some r"
  by (induction p) simp_all

lemma of_char_char_of_small: "n < 256 \<Longrightarrow> (of_char (char_of n) :: nat) = n"
  by simp

lemma is_digit_digit_char: "n < 10 \<Longrightarrow> is_digit (digit_char n)"
  by (simp add: is_digit_def digit_char_def)

lemma digit_char_value: "n < 10 \<Longrightarrow> (of_char (digit_char n) :: nat) - 48 = n"
  by (simp add: digit_char_def)

lemma show_nat_digits: "\<forall>c \<in> set (show_nat n). is_digit c"
proof (induction n rule: show_nat.induct)
  case (1 n)
  show ?case
  proof (cases "n < 10")
    case True
    then show ?thesis by (subst show_nat.simps) (simp add: is_digit_digit_char)
  next
    case False
    then show ?thesis using 1 by (subst show_nat.simps) (simp add: is_digit_digit_char)
  qed
qed

lemma show_nat_nonempty: "show_nat n \<noteq> []"
  by (subst show_nat.simps) simp

lemma show_nat_value:
  "foldl (\<lambda>a d. 10 * a + ((of_char d :: nat) - 48)) 0 (show_nat n) = n"
proof (induction n rule: show_nat.induct)
  case (1 n)
  show ?case
  proof (cases "n < 10")
    case True
    then show ?thesis by (subst show_nat.simps) (simp add: digit_char_value)
  next
    case False
    then show ?thesis using 1 by (subst show_nat.simps) (simp add: digit_char_value)
  qed
qed

lemma read_nat_show_nat:
  assumes "r = [] \<or> \<not> is_digit (hd r)"
  shows "read_nat (show_nat n @ r) = Some (n, r)"
proof -
  have t: "takeWhile is_digit (show_nat n @ r) = show_nat n"
    using assms show_nat_digits[of n] by (cases r) (simp_all add: takeWhile_append2) 
  have d: "dropWhile is_digit (show_nat n @ r) = r"
    using assms show_nat_digits[of n] by (cases r) (simp_all add: dropWhile_append2)
  show ?thesis
    by (simp add: read_nat_def t d show_nat_nonempty show_nat_value Let_def)
qed

lemma show_nat_no_minus: "hd (show_nat n) \<noteq> CHR ''-''"
proof -
  have "is_digit (hd (show_nat n))"
    using show_nat_digits[of n] show_nat_nonempty[of n] by (cases "show_nat n") simp_all
  then show ?thesis by (auto simp: is_digit_def)
qed

lemma read_int_show_int:
  assumes "r = [] \<or> \<not> is_digit (hd r)"
  shows "read_int (show_int i @ r) = Some (i, r)"
proof (cases "i < 0")
  case True
  then show ?thesis
    by (simp add: read_int_def show_int_def read_nat_show_nat[OF assms])
next
  case False
  obtain c cs where s: "show_nat (nat i) = c # cs"
    using show_nat_nonempty[of "nat i"] by (cases "show_nat (nat i)") auto
  have c: "c \<noteq> CHR ''-''" using show_nat_no_minus[of "nat i"] s by simp
  have "read_nat (show_nat (nat i) @ r) = Some (nat i, r)" by (rule read_nat_show_nat[OF assms])
  then have "read_nat (c # cs @ r) = Some (nat i, r)" by (simp add: s)
  then show ?thesis using False c
    by (simp add: read_int_def show_int_def s)
qed

lemma read_bool_show:
  "read_bool ((if b then ''true'' else ''false'') @ r) = Some (b, r)"
  by (simp add: read_bool_def)

lemma hex_low_hex': "k < 16 \<Longrightarrow> hex_value (low_hex k) = Some k"
  by (auto simp add: hex_value_def low_hex_def Let_def)

lemma char_of_8: "char_of (8::nat) = CHR 0x08"
  by code_simp

lemma char_of_9: "char_of (9::nat) = CHR 0x09"
  by code_simp

lemma char_of_10: "char_of (10::nat) = CHR 0x0A"
  by code_simp

lemma char_of_12: "char_of (12::nat) = CHR 0x0C"
  by code_simp

lemma char_of_13: "char_of (13::nat) = CHR 0x0D"
  by code_simp

lemma char_of_34: "char_of (34::nat) = CHR 0x22"
  by code_simp

lemma char_of_92: "char_of (92::nat) = CHR 0x5C"
  by code_simp

lemmas char_of_controls = char_of_8 char_of_9 char_of_10 char_of_12 char_of_13 char_of_34 char_of_92

lemma read_chars_escape:
  assumes "rest \<noteq> []"
  shows "read_chars acc (escape_char c @ rest) = read_chars (c # acc) rest"
proof -
  obtain e r where rest: "rest = e # r" using assms by (cases rest) auto
  define n where "n = (of_char c :: nat)"
  have cn: "c = char_of n" by (simp add: n_def)
  have q_iff: "c = dq \<longleftrightarrow> n = 34"
  proof
    assume "c = dq" then show "n = 34" by (simp add: n_def dq_def)
  next
    assume "n = 34" then show "c = dq" by (simp add: cn dq_def char_of_controls)
  qed
  have b_iff: "c = bslash \<longleftrightarrow> n = 92"
  proof
    assume "c = bslash" then show "n = 92" by (simp add: n_def bslash_def)
  next
    assume "n = 92" then show "c = bslash" by (simp add: cn bslash_def char_of_controls)
  qed
  consider (q) "n = 34" | (b) "n = 92" | (c8) "n = 8" | (c9) "n = 9" | (c10) "n = 10"
    | (c12) "n = 12" | (c13) "n = 13"
    | (ctl) "n < 32" "n \<noteq> 8" "n \<noteq> 9" "n \<noteq> 10" "n \<noteq> 12" "n \<noteq> 13"
    | (plain) "n \<noteq> 34" "n \<noteq> 92" "\<not> n < 32"
    by blast
  then show ?thesis
  proof cases
    case q
    then have "c = dq" by (simp add: q_iff)
    then show ?thesis by (simp add: escape_char_def dq_def bslash_def rest)
  next
    case b
    then have "c = bslash" by (simp add: b_iff)
    then show ?thesis by (simp add: escape_char_def dq_def bslash_def rest)
  next
    case c8
    then have "c = CHR 0x08" by (simp add: cn char_of_controls)
    then show ?thesis by (simp add: escape_char_def dq_def bslash_def rest)
  next
    case c9
    then have "c = CHR 0x09" by (simp add: cn char_of_controls)
    then show ?thesis by (simp add: escape_char_def dq_def bslash_def rest)
  next
    case c10
    then have "c = CHR 0x0A" by (simp add: cn char_of_controls)
    then show ?thesis by (simp add: escape_char_def dq_def bslash_def rest)
  next
    case c12
    then have "c = CHR 0x0C" by (simp add: cn char_of_controls)
    then show ?thesis by (simp add: escape_char_def dq_def bslash_def rest)
  next
    case c13
    then have "c = CHR 0x0D" by (simp add: cn char_of_controls)
    then show ?thesis by (simp add: escape_char_def dq_def bslash_def rest)
  next
    case ctl
    have nq: "c \<noteq> dq" "c \<noteq> bslash" using ctl(1) by (simp_all add: q_iff b_iff)
    have e: "escape_char c = [bslash, CHR ''u'', CHR ''0'', CHR ''0'', low_hex (n div 16), low_hex (n mod 16)]"
      using ctl nq by (simp add: escape_char_def n_def[symmetric] Let_def)
    have h1: "hex_value (low_hex (n div 16)) = Some (n div 16)"
      using ctl(1) by (intro hex_low_hex') simp
    have h2: "hex_value (low_hex (n mod 16)) = Some (n mod 16)"
      by (intro hex_low_hex') simp
    have h0: "hex_value CHR ''0'' = Some 0" by (simp add: hex_value_def)
    have u: "CHR ''u'' \<noteq> dq" "CHR ''u'' \<noteq> bslash" "bslash \<noteq> dq"
      by (simp_all add: dq_def bslash_def)
    show ?thesis
      unfolding e rest using u by (simp add: h0 h1 h2 cn[symmetric])
  next
    case plain
    have nq: "c \<noteq> dq" "c \<noteq> bslash" using plain by (simp_all add: q_iff b_iff)
    have e: "escape_char c = [c]"
      using plain nq by (simp add: escape_char_def n_def[symmetric] Let_def)
    show ?thesis
      unfolding e rest using nq plain(3) by (simp add: n_def)
  qed
qed

lemma read_chars_escaped:
  "read_chars acc (concat (map escape_char s) @ dq # r) = Some (rev acc @ s, r)"
proof (induction s arbitrary: acc)
  case Nil
  show ?case by (cases r) simp_all
next
  case (Cons c s)
  have "read_chars acc (escape_char c @ (concat (map escape_char s) @ dq # r))
          = read_chars (c # acc) (concat (map escape_char s) @ dq # r)"
    by (rule read_chars_escape) simp
  then show ?case using Cons[of "c # acc"] by simp
qed

lemma read_string_quote: "read_string (quote s @ r) = Some (s, r)"
  using read_chars_escaped[of "[]" s r] by (simp add: read_string_def quote_def)

lemma parse_stringify:
  "parse_progress (stringify_progress pg bm stamp) =
     Some [(''page'', JNum pg), (''isBookmarked'', JBool bm), (''lastRead'', JStr stamp)]"
proof -
  let ?p1 = "''{'' @ quote ''page'' @ '':''"
  let ?p2 = "'','' @ quote ''isBookmarked'' @ '':''"
  let ?p3 = "'','' @ quote ''lastRead'' @ '':''"
  let ?b = "(if bm then ''true'' else ''false'')"
  let ?t4 = "?p3 @ quote stamp @ ''}''"
  let ?t2 = "?p2 @ ?b @ ?t4"
  have s: "stringify_progress pg bm stamp = ?p1 @ show_int pg @ ?t2"
    by (simp add: stringify_progress_def)
  have 1: "strip_prefix ?p1 (?p1 @ show_int pg @ ?t2) = Some (show_int pg @ ?t2)"
    by (rule strip_prefix_append)
  have 2: "read_int (show_int pg @ ?t2) = Some (pg, ?t2)"
    by (rule read_int_show_int) (simp add: is_digit_def)
  have 3: "strip_prefix ?p2 (?p2 @ ?b @ ?t4) = Some (?b @ ?t4)"
    by (rule strip_prefix_append)
  have 4: "read_bool (?b @ ?t4) = Some (bm, ?t4)"
    by (rule read_bool_show)
  have 5: "strip_prefix ?p3 (?p3 @ quote stamp @ ''}'') = Some (quote stamp @ ''}'')"
    by (rule strip_prefix_append)
  have 6: "read_string (quote stamp @ ''}'') = Some (stamp, ''}'')"
    by (rule read_string_quote)
  show ?thesis
    unfolding parse_progress_def s by (simp only: 1 2 3 4 5 6 option.case prod.case if_True refl)
qed

lemma stringify_nonempty: "stringify_progress pg bm stamp \<noteq> []"
  by (simp add: stringify_progress_def)

lemma progress_key_inj: "progress_key a = progress_key b \<longleftrightarrow> a = b"
  by (simp add: progress_key_def)

text \<open>
  C10. After \<open>saveReadingProgress(bookId, page, isBookmarked)\<close>, \<open>getReadingProgress(bookId)\<close>
  returns the object with the page and the bookmark flag that were saved (and the time
  stamp of the save); the entry of every other book id in the store, and what
  \<open>getReadingProgress\<close> returns for it, are unchanged.
\<close>

theorem reading_progress_roundtrip:
  "getReadingProgress (saveReadingProgress stamp store bookId pg bm) bookId =
     Inr (Some [(''page'', JNum pg), (''isBookmarked'', JBool bm), (''lastRead'', JStr stamp)])
   \<and> (\<forall>other. other \<noteq> bookId \<longrightarrow>
         saveReadingProgress stamp store bookId pg bm (progress_key other) = store (progress_key other)
         \<and> getReadingProgress (saveReadingProgress stamp store bookId pg bm) other =
             getReadingProgress store other)"
  by (simp add: getReadingProgress_def saveReadingProgress_def stringify_nonempty parse_stringify
        progress_key_inj)

text \<open>Saving page 7 with a bookmark for one book in the empty store.\<close>

theorem reading_progress_roundtrip_witness:
  "getReadingProgress
     (saveReadingProgress ''2026-11-02T10:00:00.000Z'' Map.empty ''gutenberg-1'' 7 True) ''gutenberg-1'' =
     Inr (Some [(''page'', JNum 7), (''isBookmarked'', JBool True),
                (''lastRead'', JStr ''2026-11-02T10:00:00.000Z'')])
   \<and> getReadingProgress
     (saveReadingProgress ''2026-11-02T10:00:00.000Z'' Map.empty ''gutenberg-1'' 7 True) ''gutenberg-2'' =
     Inr None"
proof -
  have d: "''gutenberg-2'' \<noteq> ''gutenberg-1''" by simp
  have e: "getReadingProgress Map.empty ''gutenberg-2'' = Inr None"
    by (simp add: getReadingProgress_def)
  note t = reading_progress_roundtrip[of "''2026-11-02T10:00:00.000Z''" Map.empty "''gutenberg-1''" 7 True]
  from t have 1: "getReadingProgress
     (saveReadingProgress ''2026-11-02T10:00:00.000Z'' Map.empty ''gutenberg-1'' 7 True) ''gutenberg-1'' =
     Inr (Some [(''page'', JNum 7), (''isBookmarked'', JBool True),
                (''lastRead'', JStr ''2026-11-02T10:00:00.000Z'')])"
    by (rule conjunct1)
  from t[THEN conjunct2, rule_format, OF d] e
  have 2: "getReadingProgress
     (saveReadingProgress ''2026-11-02T10:00:00.000Z'' Map.empty ''gutenberg-1'' 7 True) ''gutenberg-2'' =
     Inr None"
    by simp
  from 1 2 show ?thesis by (rule conjI)
qed

end
